theory Spec2Isabelle
  imports Complex_Main "HOL-Library.AList" "HOL-Library.Sublist"
begin

section \<open>The data handler of AirBnBDataHandler.js\<close>

text \<open>
  The module keeps one array of listings that was loaded from the CSV file
  (\<^verbatim>\<open>listingData\<close>) and one working array (\<^verbatim>\<open>currentData\<close>) that the
  filters replace. Numbers of the program are IEEE doubles. The loader replaces NaN and
  the negative zero by zero (\<^verbatim>\<open>parseFloat(...) || 0\<close>), so a number of a listing is
  taken to be a finite double and is held as the real number it denotes. Comparisons
  of doubles are exact on these reals. A sum or a quotient of the program is the exact
  result rounded to the nearest double, which is what \<open>round_double\<close> below computes.
\<close>

subsection \<open>Listings\<close>

text \<open>
  A row of the CSV file. The three numeric columns are parsed by \<^verbatim>\<open>loadCSV\<close>; every
  other column is kept as the text of the file. A column that the file does not have is
  \<^verbatim>\<open>undefined\<close> in the row object, which is \<open>None\<close> here.
\<close>

record listing =
  price :: real
  bedrooms :: real
  review_scores_rating :: real
  host_id :: "string option"
  host_name :: "string option"
  other_columns :: "(string \<times> string) list"

subsection \<open>The handler and its two arrays\<close>

text \<open>
  Arrays are objects with an identity. The heap is the list of all arrays allocated so
  far, an address is an index into it; an array is never written after its allocation
  by any method of the handler, so a new array is appended and nothing else changes.
  The closure of \<^verbatim>\<open>createDataHandler\<close> holds two references.
\<close>

record handler =
  heap :: "listing list list"
  listingData :: nat
  currentData :: nat

definition original :: "handler \<Rightarrow> listing list" where
  "original h = heap h ! listingData h"

definition current :: "handler \<Rightarrow> listing list" where
  "current h = heap h ! currentData h"

text \<open>\<^verbatim>\<open>let currentData = [...listingData]\<close>: the caller's array is at address 0, the copy at 1.\<close>

definition createDataHandler :: "listing list \<Rightarrow> handler" where
  "createDataHandler ld = \<lparr>heap = [ld, ld], listingData = 0, currentData = 1\<rparr>"

text \<open>
  Each filter evaluates \<^verbatim>\<open>currentData.filter(...)\<close>, which allocates a new array, and
  assigns the reference to \<^verbatim>\<open>currentData\<close>. The method returns \<^verbatim>\<open>this\<close>: in the
  embedding, the handler after the assignment.
\<close>

definition filterByPrice :: "real \<Rightarrow> real \<Rightarrow> handler \<Rightarrow> handler" where
  "filterByPrice minPrice maxPrice h =
     h\<lparr>heap := heap h @
          [filter (\<lambda>item. price item \<ge> minPrice \<and> price item \<le> maxPrice) (heap h ! currentData h)],
       currentData := length (heap h)\<rparr>"

definition filterByBedrooms :: "real \<Rightarrow> real \<Rightarrow> handler \<Rightarrow> handler" where
  "filterByBedrooms minRooms maxRooms h =
     h\<lparr>heap := heap h @
          [filter (\<lambda>item. bedrooms item \<ge> minRooms \<and> bedrooms item \<le> maxRooms) (heap h ! currentData h)],
       currentData := length (heap h)\<rparr>"

definition filterByReviewScore :: "real \<Rightarrow> real \<Rightarrow> handler \<Rightarrow> handler" where
  "filterByReviewScore minScore maxScore h =
     h\<lparr>heap := heap h @
          [filter (\<lambda>item. review_scores_rating item \<ge> minScore \<and> review_scores_rating item \<le> maxScore)
             (heap h ! currentData h)],
       currentData := length (heap h)\<rparr>"

text \<open>\<^verbatim>\<open>currentData = [...listingData]; return this\<close>\<close>

definition reset :: "handler \<Rightarrow> handler" where
  "reset h = h\<lparr>heap := heap h @ [heap h ! listingData h], currentData := length (heap h)\<rparr>"

text \<open>A call of one of the four chainable methods, and a chain of calls.\<close>

datatype call =
    FilterByPrice real real
  | FilterByBedrooms real real
  | FilterByReviewScore real real
  | Reset

fun invoke :: "call \<Rightarrow> handler \<Rightarrow> handler" where
  "invoke (FilterByPrice a b) h = filterByPrice a b h"
| "invoke (FilterByBedrooms a b) h = filterByBedrooms a b h"
| "invoke (FilterByReviewScore a b) h = filterByReviewScore a b h"
| "invoke Reset h = reset h"

definition chain :: "call list \<Rightarrow> handler \<Rightarrow> handler" where
  "chain cs h = fold invoke cs h"

text \<open>Both references of a handler point into the heap, at different arrays.\<close>

definition handler_ok :: "handler \<Rightarrow> bool" where
  "handler_ok h =
     (listingData h < length (heap h) \<and> currentData h < length (heap h)
      \<and> currentData h \<noteq> listingData h)"

subsection \<open>Double arithmetic\<close>

text \<open>
  A value that the program computes is NaN, an infinity or a finite double, held as its
  real value. The sign of zero is not kept: no operation of the handler tells the two
  zeros apart.
\<close>

datatype jsnumber = NaN | Infinity | NegInfinity | Num real

text \<open>
  Rounding of a real to binary64, to nearest and ties to even. With \<open>e\<close> the binary
  exponent of \<open>\<bar>x\<bar>\<close> (\<open>2\<^sup>e \<le> \<bar>x\<bar> < 2\<^sup>e\<^sup>+\<^sup>1\<close>), the doubles around \<open>x\<close> are the multiples of
  \<open>2\<^sup>q\<close> with \<open>q = max e (-1022) - 52\<close> (53 bits of precision, subnormal below
  \<open>2\<^sup>-\<^sup>1\<^sup>0\<^sup>2\<^sup>2\<close>); a result of at least \<open>2\<^sup>1\<^sup>0\<^sup>2\<^sup>4\<close> is an infinity. The search for the
  exponent stops at \<open>\<plusminus>1100\<close>, outside the range of doubles, where \<open>q\<close> and the overflow
  test no longer depend on it.
\<close>

definition pow2 :: "int \<Rightarrow> real" where
  "pow2 q = (if 0 \<le> q then 2 ^ nat q else 1 / 2 ^ nat (- q))"

function exponent_up :: "real \<Rightarrow> int \<Rightarrow> int" where
  "exponent_up a e = (if 2 \<le> a \<and> e < 1100 then exponent_up (a / 2) (e + 1) else e)"
  by pat_completeness auto
termination
  by (relation "measure (\<lambda>(a, e). nat (1100 - e))") auto

function exponent_down :: "real \<Rightarrow> int \<Rightarrow> int" where
  "exponent_down a e = (if a < 1 \<and> - 1100 < e then exponent_down (2 * a) (e - 1) else e)"
  by pat_completeness auto
termination
  by (relation "measure (\<lambda>(a, e). nat (1100 + e))") auto

declare exponent_up.simps [simp del]
declare exponent_down.simps [simp del]

definition binary_exponent :: "real \<Rightarrow> int" where
  "binary_exponent a = (if 1 \<le> a then exponent_up a 0 else exponent_down a 0)"

definition round_half_even :: "real \<Rightarrow> int" where
  "round_half_even t =
     (let f = \<lfloor>t\<rfloor>; d = t - of_int f
      in if d < 1 / 2 then f else if 1 / 2 < d then f + 1 else if even f then f else f + 1)"

definition round_double :: "real \<Rightarrow> jsnumber" where
  "round_double x =
     (if x = 0 then Num 0
      else
        let a = \<bar>x\<bar>;
            q = max (binary_exponent a) (- 1022) - 52;
            r = of_int (round_half_even (a / pow2 q)) * pow2 q
        in if pow2 1024 \<le> r then (if 0 < x then Infinity else NegInfinity)
           else Num (if 0 < x then r else - r))"

text \<open>
  \<^verbatim>\<open>x + y\<close> and \<^verbatim>\<open>x / y\<close> where \<open>x\<close> is a computed value and \<open>y\<close> a number of a listing or a
  count, hence finite: the exact result, rounded. NaN and the infinities go through.
\<close>

fun double_add :: "jsnumber \<Rightarrow> real \<Rightarrow> jsnumber" where
  "double_add NaN y = NaN"
| "double_add Infinity y = Infinity"
| "double_add NegInfinity y = NegInfinity"
| "double_add (Num a) y = round_double (a + y)"

fun double_div :: "jsnumber \<Rightarrow> real \<Rightarrow> jsnumber" where
  "double_div NaN y = NaN"
| "double_div Infinity y = (if 0 \<le> y then Infinity else NegInfinity)"
| "double_div NegInfinity y = (if 0 \<le> y then NegInfinity else Infinity)"
| "double_div (Num a) y =
     (if y = 0 then (if a = 0 then NaN else if 0 < a then Infinity else NegInfinity)
      else round_double (a / y))"

text \<open>\<^verbatim>\<open>x > y\<close> on computed values: false as soon as one of them is NaN.\<close>

fun js_gt :: "jsnumber \<Rightarrow> jsnumber \<Rightarrow> bool" where
  "js_gt (Num a) (Num b) = (b < a)"
| "js_gt Infinity (Num b) = True"
| "js_gt Infinity NegInfinity = True"
| "js_gt (Num a) NegInfinity = True"
| "js_gt x y = False"

subsection \<open>Failures\<close>

text \<open>
  No method of the handler has a \<^verbatim>\<open>throw\<close>. What can go wrong in the methods that compute
  is a property access on \<^verbatim>\<open>undefined\<close> (a TypeError of the language) and a division by
  zero (for which the language returns an infinity or NaN and goes on). Both are results
  of the model, so that their absence is a theorem.
\<close>

datatype error = TypeError | DivisionByZero

definition js_div :: "jsnumber \<Rightarrow> real \<Rightarrow> error + jsnumber" where
  "js_div x y = (if y = 0 then Inl DivisionByZero else Inr (double_div x y))"

text \<open>\<^verbatim>\<open>x || d\<close> for a number \<open>x\<close> that is not NaN: zero is the only falsy one.\<close>

definition num_or :: "real \<Rightarrow> real \<Rightarrow> real" where
  "num_or x d = (if x = 0 then d else x)"

text \<open>\<^verbatim>\<open>array.reduce(callback, init)\<close> with a callback that can fail.\<close>

fun reduce :: "('b \<Rightarrow> 'a \<Rightarrow> error + 'b) \<Rightarrow> 'a list \<Rightarrow> 'b \<Rightarrow> error + 'b" where
  "reduce f [] acc = Inr acc"
| "reduce f (x # xs) acc = (case f acc x of Inl e \<Rightarrow> Inl e | Inr acc' \<Rightarrow> reduce f xs acc')"

subsection \<open>computeStats\<close>

text \<open>
  The object \<^verbatim>\<open>byRooms\<close> is an association list in the order in which its properties
  were created. Its keys are the strings of numbers; the conversion of a number to a
  string is injective on numbers that are not NaN, and no such string is the name of a
  property of \<^verbatim>\<open>Object.prototype\<close>, so the key is modelled by the number itself and a
  lookup sees own properties only. The result \<^verbatim>\<open>avgPriceByBedrooms\<close> is read as a
  mapping: the order of its association list has no meaning.
\<close>

record bucket =
  bucket_total :: jsnumber
  bucket_count :: nat

record stats =
  totalListings :: nat
  avgPrice :: jsnumber
  avgPriceByBedrooms :: "(real \<times> jsnumber) list"

definition byRooms_step :: "(real \<times> bucket) list \<Rightarrow> listing \<Rightarrow> error + (real \<times> bucket) list" where
  "byRooms_step acc item =
     (let key = num_or (bedrooms item) 0;
          acc1 = (if map_of acc key = None
                  then acc @ [(key, \<lparr>bucket_total = Num 0, bucket_count = 0\<rparr>)] else acc)
      in case map_of acc1 key of
           None \<Rightarrow> Inl TypeError
         | Some obj \<Rightarrow>
             Inr (AList.update key
                    (obj\<lparr>bucket_total := double_add (bucket_total obj) (price item),
                         bucket_count := bucket_count obj + 1\<rparr>) acc1))"

fun avg_entries :: "(real \<times> bucket) list \<Rightarrow> error + (real \<times> jsnumber) list" where
  "avg_entries [] = Inr []"
| "avg_entries ((rooms, obj) # rest) =
     (case js_div (bucket_total obj) (real (bucket_count obj)) of
        Inl e \<Rightarrow> Inl e
      | Inr avg \<Rightarrow> (case avg_entries rest of Inl e \<Rightarrow> Inl e | Inr r \<Rightarrow> Inr ((rooms, avg) # r)))"

definition computeStats :: "handler \<Rightarrow> error + stats" where
  "computeStats h =
     (let n = length (current h) in
      if n = 0
      then Inr \<lparr>totalListings = 0, avgPrice = Num 0, avgPriceByBedrooms = []\<rparr>
      else
        let totalPrice =
              fold (\<lambda>item sum. double_add sum (num_or (price item) 0)) (current h) (Num 0) in
        case js_div totalPrice (real n) of
          Inl e \<Rightarrow> Inl e
        | Inr avg \<Rightarrow>
           (case reduce byRooms_step (current h) [] of
              Inl e \<Rightarrow> Inl e
            | Inr byRooms \<Rightarrow>
               (case avg_entries byRooms of
                  Inl e \<Rightarrow> Inl e
                | Inr avgs \<Rightarrow>
                    Inr \<lparr>totalListings = n, avgPrice = avg, avgPriceByBedrooms = avgs\<rparr>)))"

subsection \<open>computeHostRanking\<close>

text \<open>
  The object \<^verbatim>\<open>tally\<close> is created by \<^verbatim>\<open>{}\<close>, so its prototype is \<^verbatim>\<open>Object.prototype\<close>,
  and its keys are host identifiers, which are arbitrary text of the file. Reading
  \<^verbatim>\<open>acc[k]\<close> gives the own property \<open>k\<close> if there is one, and else what the prototype
  has under that name: a function for the standard methods, the prototype itself for
  \<^verbatim>\<open>__proto__\<close>, all of them truthy objects. The names are those of the language
  standard.
\<close>

record ranking_entry =
  entry_host_id :: string
  entry_host_name :: string
  listingsCount :: nat

datatype 'a lookup = Own 'a | Inherited | Undefined

definition Object_prototype_keys :: "string list" where
  "Object_prototype_keys =
     [''constructor'', ''hasOwnProperty'', ''isPrototypeOf'', ''propertyIsEnumerable'',
      ''toLocaleString'', ''toString'', ''valueOf'', ''__proto__'',
      ''__defineGetter__'', ''__defineSetter__'', ''__lookupGetter__'', ''__lookupSetter__'']"

definition js_get :: "(string \<times> 'a) list \<Rightarrow> string \<Rightarrow> 'a lookup" where
  "js_get obj k =
     (case map_of obj k of
        Some v \<Rightarrow> Own v
      | None \<Rightarrow> if k \<in> set Object_prototype_keys then Inherited else Undefined)"

text \<open>
  The callback of the reduction. The increment \<^verbatim>\<open>acc[k].listingsCount += 1\<close> writes to
  the entry when \<open>k\<close> is an own property; when \<open>k\<close> is inherited it writes a property of
  the inherited object and the tally has no own property more than before.
\<close>

definition tally_step ::
  "(string \<times> ranking_entry) list \<Rightarrow> listing \<Rightarrow> error + (string \<times> ranking_entry) list" where
  "tally_step acc item =
     (case host_id item of
        None \<Rightarrow> Inr acc
      | Some hid \<Rightarrow>
          (if hid = [] then Inr acc
           else
             (let acc1 =
                   (if js_get acc hid = Undefined
                    then acc @ [(hid, \<lparr>entry_host_id = hid,
                                        entry_host_name = (case host_name item of None \<Rightarrow> [] | Some n \<Rightarrow> n),
                                        listingsCount = 0\<rparr>)]
                    else acc)
              in (case js_get acc1 hid of
                    Undefined \<Rightarrow> Inl TypeError
                  | Inherited \<Rightarrow> Inr acc1
                  | Own e \<Rightarrow>
                      Inr (AList.update hid (e\<lparr>listingsCount := listingsCount e + 1\<rparr>) acc1)))))"

text \<open>
  \<^verbatim>\<open>Object.values\<close> lists the own properties in the order of the language: first the keys
  that are array indices (the canonical decimal strings of the integers from 0 to
  \<open>2\<^sup>3\<^sup>2 - 2\<close>) in ascending numeric order, then the other keys in the order of their
  creation.
\<close>

definition is_digit :: "char \<Rightarrow> bool" where
  "is_digit c = (c \<in> set ''0123456789'')"

definition digit_val :: "char \<Rightarrow> int" where
  "digit_val c = int (length (takeWhile (\<lambda>d. d \<noteq> c) ''0123456789''))"

definition array_index_val :: "string \<Rightarrow> int" where
  "array_index_val s = fold (\<lambda>c n. 10 * n + digit_val c) s 0"

definition is_array_index :: "string \<Rightarrow> bool" where
  "is_array_index s =
     (s \<noteq> [] \<and> list_all is_digit s \<and> (if hd s = CHR ''0'' then s = ''0'' else True)
      \<and> array_index_val s < 4294967295)"

definition Object_values :: "(string \<times> 'a) list \<Rightarrow> 'a list" where
  "Object_values obj =
     map snd (sort_key (\<lambda>p. array_index_val (fst p)) (filter (\<lambda>p. is_array_index (fst p)) obj)
              @ filter (\<lambda>p. \<not> is_array_index (fst p)) obj)"

text \<open>
  \<^verbatim>\<open>array.sort(compare)\<close> is a stable sort: with a consistent comparison its result is
  the one of insertion sort, whatever algorithm the engine runs.
\<close>

fun insert_sorted :: "('a \<Rightarrow> 'a \<Rightarrow> int) \<Rightarrow> 'a \<Rightarrow> 'a list \<Rightarrow> 'a list" where
  "insert_sorted compare x [] = [x]"
| "insert_sorted compare x (y # ys) =
     (if compare x y \<le> 0 then x # y # ys else y # insert_sorted compare x ys)"

definition Array_sort :: "('a \<Rightarrow> 'a \<Rightarrow> int) \<Rightarrow> 'a list \<Rightarrow> 'a list" where
  "Array_sort compare xs = foldr (insert_sorted compare) xs []"

definition computeHostRanking :: "handler \<Rightarrow> error + ranking_entry list" where
  "computeHostRanking h =
     (case reduce tally_step (current h) [] of
        Inl e \<Rightarrow> Inl e
      | Inr tally \<Rightarrow>
          Inr (Array_sort (\<lambda>a b. int (listingsCount b) - int (listingsCount a)) (Object_values tally)))"

subsection \<open>computeBestValue\<close>

fun bestValue_loop :: "listing list \<Rightarrow> listing option \<Rightarrow> jsnumber \<Rightarrow> error + listing option" where
  "bestValue_loop [] best bestRatio = Inr best"
| "bestValue_loop (item # rest) best bestRatio =
     (if price item > 0
      then (case js_div (Num (review_scores_rating item)) (price item) of
              Inl e \<Rightarrow> Inl e
            | Inr ratio \<Rightarrow>
                if js_gt ratio bestRatio then bestValue_loop rest (Some item) ratio
                else bestValue_loop rest best bestRatio)
      else bestValue_loop rest best bestRatio)"

definition computeBestValue :: "handler \<Rightarrow> error + listing option" where
  "computeBestValue h = bestValue_loop (current h) None (Num 0)"

subsection \<open>exportResults\<close>

text \<open>
  The second argument is any value of the language; an object, an array or a function
  is a reference.
\<close>

datatype jsval =
    JUndefined
  | JNull
  | JBool bool
  | JNumber jsnumber
  | JBigInt int
  | JString string
  | JSymbol string
  | JObject nat

fun truthy :: "jsval \<Rightarrow> bool" where
  "truthy JUndefined = False"
| "truthy JNull = False"
| "truthy (JBool b) = b"
| "truthy (JNumber n) = (n \<noteq> NaN \<and> n \<noteq> Num 0)"
| "truthy (JBigInt i) = (i \<noteq> 0)"
| "truthy (JString s) = (s \<noteq> [])"
| "truthy (JSymbol s) = True"
| "truthy (JObject r) = True"

text \<open>What is handed to \<^verbatim>\<open>JSON.stringify\<close>: the array of the handler or the caller's value.\<close>

datatype payload = CurrentData "listing list" | Passed jsval

text \<open>
  The parameter has the default \<^verbatim>\<open>null\<close>, which the language takes when the argument is
  omitted or \<^verbatim>\<open>undefined\<close>. The result is the pair of arguments of the call of
  \<^verbatim>\<open>writeFile\<close>, before serialisation.
\<close>

definition exportResults :: "string \<Rightarrow> jsval \<Rightarrow> handler \<Rightarrow> string \<times> payload" where
  "exportResults filename arg h =
     (let dataToExport = (if arg = JUndefined then JNull else arg);
          payload = (if truthy dataToExport then Passed dataToExport else CurrentData (current h))
      in (filename, payload))"

subsection \<open>Notions used in the statements\<close>

text \<open>
  The ratio that \<^verbatim>\<open>computeBestValue\<close> compares, for a listing whose price is positive:
  the double that \<^verbatim>\<open>item.review_scores_rating / item.price\<close> evaluates to. The exact
  ratio is the quotient of the two reals.
\<close>

definition ratio :: "listing \<Rightarrow> jsnumber" where
  "ratio item = double_div (Num (review_scores_rating item)) (price item)"

definition exact_ratio :: "listing \<Rightarrow> real" where
  "exact_ratio item = review_scores_rating item / price item"

text \<open>
  The sum of a list of numbers as the program computes it: added one by one, from the
  left, to a start value, each sum rounded. The mean in double arithmetic is this sum
  from zero, divided by the length.
\<close>

definition double_sum_from :: "jsnumber \<Rightarrow> real list \<Rightarrow> jsnumber" where
  "double_sum_from s ps = fold (\<lambda>p sum. double_add sum p) ps s"

definition double_mean :: "real list \<Rightarrow> jsnumber" where
  "double_mean ps = double_div (double_sum_from (Num 0) ps) (real (length ps))"

text \<open>
  No operation of the mean rounds: every partial sum and the quotient are doubles.
\<close>

fun exact_sums_from :: "real \<Rightarrow> real list \<Rightarrow> bool" where
  "exact_sums_from a [] = True"
| "exact_sums_from a (p # ps) = (round_double (a + p) = Num (a + p) \<and> exact_sums_from (a + p) ps)"

definition exact_mean :: "real list \<Rightarrow> bool" where
  "exact_mean ps =
     (exact_sums_from 0 ps
      \<and> round_double (sum_list ps / real (length ps)) = Num (sum_list ps / real (length ps)))"

text \<open>A listing with the given price, bedrooms, score and host, for the examples.\<close>

definition row :: "real \<Rightarrow> real \<Rightarrow> real \<Rightarrow> string \<Rightarrow> listing" where
  "row p b s hid =
     \<lparr>price = p, bedrooms = b, review_scores_rating = s, host_id = Some hid,
      host_name = Some hid, other_columns = []\<rparr>"

text \<open>What \<^verbatim>\<open>byRooms\<close> holds for a number of bedrooms: the bucket, or zeros when there is none.\<close>

definition bucket_at :: "(real \<times> bucket) list \<Rightarrow> real \<Rightarrow> bucket" where
  "bucket_at acc k =
     (case map_of acc k of
        None \<Rightarrow> \<lparr>bucket_total = Num 0, bucket_count = 0\<rparr> | Some obj \<Rightarrow> obj)"

text \<open>
  The host identifiers that get an own property of the tally: not empty, and not the name
  of a property of \<^verbatim>\<open>Object.prototype\<close>.
\<close>

definition counted :: "string \<Rightarrow> bool" where
  "counted k = (k \<noteq> [] \<and> k \<notin> set Object_prototype_keys)"

text \<open>The position of the first listing of a host in an array (its length if there is none).\<close>

definition first_pos :: "string \<Rightarrow> listing list \<Rightarrow> nat" where
  "first_pos k xs = length (takeWhile (\<lambda>r. host_id r \<noteq> Some k) xs)"

text \<open>\<^verbatim>\<open>item.host_name || ""\<close>\<close>

definition display_name :: "listing \<Rightarrow> string" where
  "display_name item = (case host_name item of None \<Rightarrow> [] | Some n \<Rightarrow> n)"

text \<open>
  The entry expected for a host: the display name of its first listing and the number
  of its listings.
\<close>

definition entry_for :: "string \<Rightarrow> listing list \<Rightarrow> ranking_entry" where
  "entry_for k xs =
     \<lparr>entry_host_id = k,
      entry_host_name = (case find (\<lambda>r. host_id r = Some k) xs of
                           None \<Rightarrow> [] | Some r \<Rightarrow> display_name r),
      listingsCount = length (filter (\<lambda>r. host_id r = Some k) xs)\<rparr>"

text \<open>
  The tally of an array: one own property for each counted host, created in the order in
  which the hosts are first met, holding the entry of the host.
\<close>

definition tally_of :: "listing list \<Rightarrow> (string \<times> ranking_entry) list \<Rightarrow> bool" where
  "tally_of xs t =
     (distinct (map fst t)
      \<and> set (map fst t) = {k. counted k \<and> Some k \<in> host_id ` set xs}
      \<and> sorted_wrt (\<lambda>a b. first_pos a xs < first_pos b xs) (map fst t)
      \<and> (\<forall>k e. map_of t k = Some e \<longrightarrow> e = entry_for k xs))"

text \<open>
  The order in which \<^verbatim>\<open>Object.values\<close> lists the entries of two hosts: array indices by
  their number and before all other keys, other keys by their first listing.
\<close>

definition values_before :: "listing list \<Rightarrow> string \<Rightarrow> string \<Rightarrow> bool" where
  "values_before xs a b =
     (if is_array_index a
      then (if is_array_index b then array_index_val a < array_index_val b else True)
      else (if is_array_index b then False else first_pos a xs < first_pos b xs))"

text \<open>A ranking order: more listings first, and a given order of the hosts among equals.\<close>

definition ranked_before ::
  "(string \<Rightarrow> string \<Rightarrow> bool) \<Rightarrow> ranking_entry \<Rightarrow> ranking_entry \<Rightarrow> bool" where
  "ranked_before tie e f =
     (listingsCount f < listingsCount e
      \<or> (listingsCount e = listingsCount f \<and> tie (entry_host_id e) (entry_host_id f)))"

section \<open>Double arithmetic\<close>

lemma exponent_up_step:
  "2 \<le> a \<Longrightarrow> e < 1100 \<Longrightarrow> exponent_up a e = exponent_up (a / 2) (e + 1)"
  by (subst exponent_up.simps) simp

lemma exponent_up_stop: "a < 2 \<Longrightarrow> exponent_up a e = e"
  by (subst exponent_up.simps) simp

lemma exponent_down_step:
  "a < 1 \<Longrightarrow> - 1100 < e \<Longrightarrow> exponent_down a e = exponent_down (2 * a) (e - 1)"
  by (subst exponent_down.simps) simp

lemma exponent_down_stop: "1 \<le> a \<Longrightarrow> exponent_down a e = e"
  by (subst exponent_down.simps) simp

text \<open>The rules that evaluate a rounding at a given rational.\<close>

lemmas round_double_eval =
  round_double_def binary_exponent_def exponent_up_step exponent_up_stop
  exponent_down_step exponent_down_stop round_half_even_def pow2_def Let_def

text \<open>Known doubles: 0.1, 0.8, 4/3 and 4.9, and sums and quotients that do not round.\<close>

lemma round_double_tenth: "round_double (1 / 10) = Num (3602879701896397 / 36028797018963968)"
  by (simp add: round_double_eval)

lemma round_double_four_fifths: "round_double (4 / 5) = Num (3602879701896397 / 4503599627370496)"
  by (simp add: round_double_eval)

lemma round_double_four_thirds: "round_double (4 / 3) = Num (6004799503160661 / 4503599627370496)"
  by (simp add: round_double_eval)

lemma round_double_4_9: "round_double (49 / 10) = Num (2758454771764429 / 562949953421312)"
  by (simp add: round_double_eval)

lemma round_double_4_9_by_49:
  "round_double (2758454771764429 / 562949953421312 / 49) = Num (3602879701896397 / 36028797018963968)"
  by (simp add: round_double_eval)

lemma round_double_small_integers:
  "round_double 1 = Num 1" "round_double 2 = Num 2" "round_double 4 = Num 4"
  "round_double 100 = Num 100" "round_double 150 = Num 150" "round_double 200 = Num 200"
  "round_double 300 = Num 300" "round_double 600 = Num 600" "round_double (1 / 2) = Num (1 / 2)"
  by (simp_all add: round_double_eval)

text \<open>A sum that overflows is an infinity.\<close>

lemma exponent_up_pow2: "e + int k \<le> 1100 \<Longrightarrow> exponent_up (2 ^ k) e = e + int k"
proof (induction k arbitrary: e)
  case 0
  show ?case by (simp add: exponent_up_stop)
next
  case (Suc k)
  have "exponent_up (2 ^ Suc k) e = exponent_up (2 ^ Suc k / 2) (e + 1)"
    using Suc.prems by (intro exponent_up_step) simp_all
  also have "\<dots> = e + int (Suc k)"
    using Suc.IH [of "e + 1"] Suc.prems by simp
  finally show ?case .
qed

lemma double_add_overflow: "double_add (Num (2 ^ 1023)) (2 ^ 1023) = Infinity"
proof -
  have s: "(2::real) ^ 1023 + 2 ^ 1023 = 2 ^ 1024" by simp
  have "binary_exponent (2 ^ 1024) = 1024"
    using exponent_up_pow2 [of 0 1024] by (simp add: binary_exponent_def)
  moreover have "\<bar>(2::real) ^ 1024\<bar> = 2 ^ 1024"
    by (rule abs_of_pos) (rule zero_less_power, simp)
  ultimately have e: "binary_exponent \<bar>2 ^ 1024\<bar> = 1024"
    by (simp only:)
  have "round_double (2 ^ 1024) = Infinity"
    unfolding round_double_def Let_def e
    by (simp add: round_half_even_def pow2_def Let_def)
  with s show ?thesis by simp
qed

text \<open>A sum in double arithmetic depends on the order of the numbers.\<close>

lemma double_sum_depends_on_order:
  "double_sum_from (Num 0) [9007199254740992, 1, 1] = Num 9007199254740992"
  "double_sum_from (Num 0) [1, 1, 9007199254740992] = Num 9007199254740994"
  by (simp_all add: double_sum_from_def round_double_eval)

lemma round_double_not_NaN: "round_double x \<noteq> NaN"
  by (simp add: round_double_def Let_def)

lemma double_div_not_NaN: "y \<noteq> 0 \<Longrightarrow> double_div (Num a) y \<noteq> NaN"
  by (simp add: round_double_not_NaN)

lemma js_gt_trans: "js_gt a b \<Longrightarrow> js_gt b c \<Longrightarrow> js_gt a c"
  by (cases a; cases b; cases c) auto

lemma js_gt_below: "a \<noteq> NaN \<Longrightarrow> \<not> js_gt a b \<Longrightarrow> js_gt c b \<Longrightarrow> js_gt c a"
  by (cases a; cases b; cases c) auto

lemma js_gt_irrefl: "\<not> js_gt a a"
  by (cases a) auto


section \<open>The chain of filters\<close>

lemma current_filterByPrice:
  "current (filterByPrice a b h) = filter (\<lambda>r. a \<le> price r \<and> price r \<le> b) (current h)"
  by (simp add: filterByPrice_def current_def)

lemma current_filterByBedrooms:
  "current (filterByBedrooms a b h) = filter (\<lambda>r. a \<le> bedrooms r \<and> bedrooms r \<le> b) (current h)"
  by (simp add: filterByBedrooms_def current_def)

lemma current_filterByReviewScore:
  "current (filterByReviewScore a b h) =
     filter (\<lambda>r. a \<le> review_scores_rating r \<and> review_scores_rating r \<le> b) (current h)"
  by (simp add: filterByReviewScore_def current_def)

lemma current_reset: "current (reset h) = original h"
  by (simp add: reset_def current_def original_def)

lemma heap_invoke: "\<exists>xs. heap (invoke c h) = heap h @ [xs]"
  by (cases c) (simp_all add: filterByPrice_def filterByBedrooms_def filterByReviewScore_def reset_def)

lemma listingData_invoke: "listingData (invoke c h) = listingData h"
  by (cases c) (simp_all add: filterByPrice_def filterByBedrooms_def filterByReviewScore_def reset_def)

lemma currentData_invoke: "currentData (invoke c h) = length (heap h)"
  by (cases c) (simp_all add: filterByPrice_def filterByBedrooms_def filterByReviewScore_def reset_def)

lemma handler_ok_invoke: "handler_ok h \<Longrightarrow> handler_ok (invoke c h)"
  using heap_invoke [of c h]
  by (auto simp: handler_ok_def listingData_invoke currentData_invoke)

lemma heap_kept_invoke: "a < length (heap h) \<Longrightarrow> heap (invoke c h) ! a = heap h ! a"
  using heap_invoke [of c h] by (auto simp: nth_append)

lemma original_invoke: "handler_ok h \<Longrightarrow> original (invoke c h) = original h"
  by (simp add: original_def listingData_invoke heap_kept_invoke handler_ok_def)

lemma current_invoke_subseq:
  "subseq (current h) (original h) \<Longrightarrow> subseq (current (invoke c h)) (original h)"
proof (cases c)
  case (FilterByPrice a b)
  assume "subseq (current h) (original h)"
  then show ?thesis
    using FilterByPrice subseq_order.order_trans [OF subseq_filter_left]
    by (simp add: current_filterByPrice)
next
  case (FilterByBedrooms a b)
  assume "subseq (current h) (original h)"
  then show ?thesis
    using FilterByBedrooms subseq_order.order_trans [OF subseq_filter_left]
    by (simp add: current_filterByBedrooms)
next
  case (FilterByReviewScore a b)
  assume "subseq (current h) (original h)"
  then show ?thesis
    using FilterByReviewScore subseq_order.order_trans [OF subseq_filter_left]
    by (simp add: current_filterByReviewScore)
next
  case Reset
  then show ?thesis by (simp add: current_reset)
qed

lemma handler_ok_create: "handler_ok (createDataHandler ld)"
  by (simp add: handler_ok_def createDataHandler_def)

lemma chain_Nil: "chain [] h = h"
  by (simp add: chain_def)

lemma chain_snoc: "chain (cs @ [c]) h = invoke c (chain cs h)"
  by (simp add: chain_def)

lemma chain_invariant:
  "handler_ok (chain cs (createDataHandler ld))
   \<and> listingData (chain cs (createDataHandler ld)) = 0
   \<and> original (chain cs (createDataHandler ld)) = ld
   \<and> subseq (current (chain cs (createDataHandler ld))) ld"
proof (induction cs rule: rev_induct)
  case Nil
  show ?case
    by (simp add: chain_Nil handler_ok_create)
       (simp add: createDataHandler_def original_def current_def)
next
  case (snoc c cs)
  let ?h = "chain cs (createDataHandler ld)"
  from snoc have ok: "handler_ok ?h" and ld: "listingData ?h = 0"
    and orig: "original ?h = ld" and sub: "subseq (current ?h) ld"
    by simp_all
  have "subseq (current (invoke c ?h)) (original ?h)"
    using current_invoke_subseq [of ?h c] sub orig by simp
  then show ?case
    using ok ld orig
    by (simp add: chain_snoc handler_ok_invoke listingData_invoke original_invoke)
qed



text \<open>
  Claim C1. After \<^verbatim>\<open>filterByPrice(a, b)\<close> the current array holds exactly the listings of
  the previous current array whose price lies between \<open>a\<close> and \<open>b\<close>, both included, in
  their previous order; the same for the bedrooms and for the review score. When the
  range is inverted the result is the empty array.
\<close>

theorem filter_keeps_exactly_the_range:
  "current (filterByPrice a b h) = filter (\<lambda>r. a \<le> price r \<and> price r \<le> b) (current h)
   \<and> current (filterByBedrooms a b h) = filter (\<lambda>r. a \<le> bedrooms r \<and> bedrooms r \<le> b) (current h)
   \<and> current (filterByReviewScore a b h) =
       filter (\<lambda>r. a \<le> review_scores_rating r \<and> review_scores_rating r \<le> b) (current h)
   \<and> (b < a \<longrightarrow> current (filterByPrice a b h) = [] \<and> current (filterByBedrooms a b h) = []
                 \<and> current (filterByReviewScore a b h) = [])"
  by (simp add: current_filterByPrice current_filterByBedrooms current_filterByReviewScore)

theorem filter_keeps_exactly_the_range_witness:
  "(100::real) < 200
   \<and> current (filterByPrice 200 100 (createDataHandler [row 50 1 90 ''7'', row 150 2 80 ''8'', row 250 3 70 ''9''])) = []
   \<and> current (filterByPrice 100 200 (createDataHandler [row 50 1 90 ''7'', row 150 2 80 ''8'', row 250 3 70 ''9'']))
       = [row 150 2 80 ''8'']
   \<and> current (filterByBedrooms 2 3 (createDataHandler [row 50 1 90 ''7'', row 150 2 80 ''8'', row 250 3 70 ''9'']))
       = [row 150 2 80 ''8'', row 250 3 70 ''9'']
   \<and> current (filterByReviewScore 85 100 (createDataHandler [row 50 1 90 ''7'', row 150 2 80 ''8'', row 250 3 70 ''9'']))
       = [row 50 1 90 ''7'']"
  using filter_keeps_exactly_the_range [of 200 100 "createDataHandler [row 50 1 90 ''7'', row 150 2 80 ''8'', row 250 3 70 ''9'']"]
        filter_keeps_exactly_the_range [of 100 200 "createDataHandler [row 50 1 90 ''7'', row 150 2 80 ''8'', row 250 3 70 ''9'']"]
        filter_keeps_exactly_the_range [of 2 3 "createDataHandler [row 50 1 90 ''7'', row 150 2 80 ''8'', row 250 3 70 ''9'']"]
        filter_keeps_exactly_the_range [of 85 100 "createDataHandler [row 50 1 90 ''7'', row 150 2 80 ''8'', row 250 3 70 ''9'']"]
  by (simp add: createDataHandler_def current_def row_def)

lemma filter_swap: "filter P (filter Q xs) = filter Q (filter P xs)"
  by (induction xs) auto

text \<open>
  Claim C7. Filtering by price and then by bedrooms gives the same current array as
  filtering by bedrooms and then by price, and its listings are those that are in both
  single results.
\<close>

theorem price_and_bedrooms_filters_commute:
  "current (filterByBedrooms c d (filterByPrice a b h))
     = current (filterByPrice a b (filterByBedrooms c d h))
   \<and> set (current (filterByBedrooms c d (filterByPrice a b h)))
     = set (current (filterByPrice a b h)) \<inter> set (current (filterByBedrooms c d h))"
proof -
  have "filter (\<lambda>r. c \<le> bedrooms r \<and> bedrooms r \<le> d)
          (filter (\<lambda>r. a \<le> price r \<and> price r \<le> b) (current h))
        = filter (\<lambda>r. a \<le> price r \<and> price r \<le> b)
          (filter (\<lambda>r. c \<le> bedrooms r \<and> bedrooms r \<le> d) (current h))"
    by (rule filter_swap)
  moreover have "set (filter (\<lambda>r. c \<le> bedrooms r \<and> bedrooms r \<le> d)
          (filter (\<lambda>r. a \<le> price r \<and> price r \<le> b) (current h)))
        = set (filter (\<lambda>r. a \<le> price r \<and> price r \<le> b) (current h))
          \<inter> set (filter (\<lambda>r. c \<le> bedrooms r \<and> bedrooms r \<le> d) (current h))"
    by auto
  ultimately show ?thesis
    by (simp only: current_filterByPrice current_filterByBedrooms)
qed

theorem price_and_bedrooms_filters_commute_witness:
  "current (filterByBedrooms 2 3 (filterByPrice 100 200
       (createDataHandler [row 50 1 90 ''7'', row 150 2 80 ''8'', row 250 3 70 ''9''])))
     = [row 150 2 80 ''8'']
   \<and> current (filterByPrice 100 200 (filterByBedrooms 2 3
       (createDataHandler [row 50 1 90 ''7'', row 150 2 80 ''8'', row 250 3 70 ''9''])))
     = [row 150 2 80 ''8'']"
  using price_and_bedrooms_filters_commute [of 2 3 100 200
          "createDataHandler [row 50 1 90 ''7'', row 150 2 80 ''8'', row 250 3 70 ''9'']"]
  by (simp add: current_filterByPrice current_filterByBedrooms)
     (simp add: createDataHandler_def current_def row_def)

text \<open>
  Claim C6. After any chain of calls on a new handler, \<^verbatim>\<open>reset()\<close> makes the current array
  equal to the original one, element for element, and what it returns is the handler
  with the same original array, on which the chain goes on.
\<close>

theorem reset_restores_original:
  assumes "h = chain cs (createDataHandler ld)"
  shows "current (reset h) = ld \<and> original (reset h) = ld \<and> original h = ld
         \<and> length (current (reset h)) = length (original (reset h))
         \<and> (\<forall>i < length ld. current (reset h) ! i = original (reset h) ! i)
         \<and> listingData (reset h) = listingData h \<and> handler_ok (reset h)"
proof -
  have inv: "handler_ok h" "original h = ld"
    using assms chain_invariant [of cs ld] by simp_all
  have "original (reset h) = original h"
    using original_invoke [OF inv(1), of Reset] by simp
  moreover have "handler_ok (reset h)"
    using handler_ok_invoke [OF inv(1), of Reset] by simp
  moreover have "listingData (reset h) = listingData h"
    by (simp add: reset_def)
  ultimately show ?thesis
    using inv by (simp add: current_reset)
qed

theorem reset_restores_original_witness:
  "current (reset (chain [FilterByPrice 100 200, FilterByBedrooms 3 5]
       (createDataHandler [row 50 1 90 ''7'', row 150 2 80 ''8'', row 250 3 70 ''9''])))
     = [row 50 1 90 ''7'', row 150 2 80 ''8'', row 250 3 70 ''9'']
   \<and> current (chain [FilterByPrice 100 200, FilterByBedrooms 3 5]
       (createDataHandler [row 50 1 90 ''7'', row 150 2 80 ''8'', row 250 3 70 ''9''])) = []"
  using reset_restores_original [of _ "[FilterByPrice 100 200, FilterByBedrooms 3 5]"
          "[row 50 1 90 ''7'', row 150 2 80 ''8'', row 250 3 70 ''9'']", OF refl]
  by (simp add: chain_def current_filterByPrice current_filterByBedrooms)
     (simp add: createDataHandler_def current_def row_def)

text \<open>
  Claim C2. Along any chain of filters and resets the original array is the one given
  at creation, with its contents; the current array is another array than the original
  one and a subsequence of it; a call writes no array that exists; and the result of a
  filter is a function of the current array alone.
\<close>

theorem original_kept_and_current_subsequence:
  assumes "h = chain cs (createDataHandler ld)"
  shows "original h = ld
         \<and> listingData h = listingData (createDataHandler ld)
         \<and> listingData h < length (heap h) \<and> currentData h < length (heap h)
         \<and> currentData h \<noteq> listingData h
         \<and> subseq (current h) (original h)
         \<and> (\<forall>a < length (heap h). heap (invoke c h) ! a = heap h ! a)
         \<and> (\<forall>h'. current h' = current h \<longrightarrow>
               current (filterByPrice lo hi h') = current (filterByPrice lo hi h)
               \<and> current (filterByBedrooms lo hi h') = current (filterByBedrooms lo hi h)
               \<and> current (filterByReviewScore lo hi h') = current (filterByReviewScore lo hi h))"
proof -
  have inv: "handler_ok h" "listingData h = 0" "original h = ld" "subseq (current h) ld"
    using assms chain_invariant [of cs ld] by simp_all
  have "listingData (createDataHandler ld) = 0"
    by (simp add: createDataHandler_def)
  moreover have "\<forall>a < length (heap h). heap (invoke c h) ! a = heap h ! a"
    by (simp add: heap_kept_invoke)
  ultimately show ?thesis
    using inv
    by (simp add: handler_ok_def current_filterByPrice current_filterByBedrooms
          current_filterByReviewScore)
qed

theorem original_kept_and_current_subsequence_witness:
  "original (chain [FilterByPrice 100 300, Reset, FilterByBedrooms 1 2]
       (createDataHandler [row 50 1 90 ''7'', row 150 2 80 ''8'', row 250 3 70 ''9'']))
     = [row 50 1 90 ''7'', row 150 2 80 ''8'', row 250 3 70 ''9'']
   \<and> current (chain [FilterByPrice 100 300, Reset, FilterByBedrooms 1 2]
       (createDataHandler [row 50 1 90 ''7'', row 150 2 80 ''8'', row 250 3 70 ''9'']))
     = [row 50 1 90 ''7'', row 150 2 80 ''8'']
   \<and> subseq [row 50 1 90 ''7'', row 150 2 80 ''8'']
        [row 50 1 90 ''7'', row 150 2 80 ''8'', row 250 3 70 ''9'']"
proof -
  let ?ld = "[row 50 1 90 ''7'', row 150 2 80 ''8'', row 250 3 70 ''9'']"
  let ?h = "chain [FilterByPrice 100 300, Reset, FilterByBedrooms 1 2] (createDataHandler ?ld)"
  have kept: "original ?h = ?ld \<and> subseq (current ?h) (original ?h)"
    using original_kept_and_current_subsequence [where c = Reset and lo = 0 and hi = 1, OF refl]
    by blast
  have "current ?h = [row 50 1 90 ''7'', row 150 2 80 ''8'']"
    by (simp add: chain_def filterByPrice_def filterByBedrooms_def reset_def
          createDataHandler_def current_def row_def)
  with kept show ?thesis by simp
qed

section \<open>The best value\<close>

lemma ratio_not_NaN: "price x > 0 \<Longrightarrow> ratio x \<noteq> NaN"
  by (simp add: ratio_def round_double_not_NaN)

lemma js_div_ratio: "price x > 0 \<Longrightarrow> js_div (Num (review_scores_rating x)) (price x) = Inr (ratio x)"
  by (simp add: js_div_def ratio_def)

lemma bestValue_loop_result:
  "\<exists>res. bestValue_loop xs best br = Inr res \<and>
     ((res = best \<and> (\<forall>x\<in>set xs. price x > 0 \<longrightarrow> \<not> js_gt (ratio x) br))
      \<or> (\<exists>pre r post. xs = pre @ r # post \<and> res = Some r \<and> price r > 0 \<and> js_gt (ratio r) br
            \<and> (\<forall>x\<in>set pre. price x > 0 \<longrightarrow> js_gt (ratio r) (ratio x))
            \<and> (\<forall>x\<in>set post. price x > 0 \<longrightarrow> \<not> js_gt (ratio x) (ratio r))))"
proof (induction xs arbitrary: best br)
  case Nil
  show ?case by simp
next
  case (Cons item rest)
  show ?case
  proof (cases "price item > 0 \<and> js_gt (ratio item) br")
    case True
    then have step: "bestValue_loop (item # rest) best br = bestValue_loop rest (Some item) (ratio item)"
      by (simp add: js_div_ratio)
    from Cons.IH [of "Some item" "ratio item"] obtain res where
      res: "bestValue_loop rest (Some item) (ratio item) = Inr res"
      and alt: "(res = Some item \<and> (\<forall>x\<in>set rest. price x > 0 \<longrightarrow> \<not> js_gt (ratio x) (ratio item)))
        \<or> (\<exists>pre r post. rest = pre @ r # post \<and> res = Some r \<and> price r > 0
            \<and> js_gt (ratio r) (ratio item)
            \<and> (\<forall>x\<in>set pre. price x > 0 \<longrightarrow> js_gt (ratio r) (ratio x))
            \<and> (\<forall>x\<in>set post. price x > 0 \<longrightarrow> \<not> js_gt (ratio x) (ratio r)))"
      by blast
    from alt show ?thesis
    proof
      assume a: "res = Some item \<and> (\<forall>x\<in>set rest. price x > 0 \<longrightarrow> \<not> js_gt (ratio x) (ratio item))"
      with True have "\<exists>pre r post. item # rest = pre @ r # post \<and> res = Some r \<and> price r > 0
            \<and> js_gt (ratio r) br
            \<and> (\<forall>x\<in>set pre. price x > 0 \<longrightarrow> js_gt (ratio r) (ratio x))
            \<and> (\<forall>x\<in>set post. price x > 0 \<longrightarrow> \<not> js_gt (ratio x) (ratio r))"
        by (intro exI [of _ "[]"] exI [of _ item] exI [of _ rest]) simp
      with res step show ?thesis by simp
    next
      assume "\<exists>pre r post. rest = pre @ r # post \<and> res = Some r \<and> price r > 0
            \<and> js_gt (ratio r) (ratio item)
            \<and> (\<forall>x\<in>set pre. price x > 0 \<longrightarrow> js_gt (ratio r) (ratio x))
            \<and> (\<forall>x\<in>set post. price x > 0 \<longrightarrow> \<not> js_gt (ratio x) (ratio r))"
      then obtain pre r post where d: "rest = pre @ r # post" "res = Some r" "price r > 0"
        "js_gt (ratio r) (ratio item)" "\<forall>x\<in>set pre. price x > 0 \<longrightarrow> js_gt (ratio r) (ratio x)"
        "\<forall>x\<in>set post. price x > 0 \<longrightarrow> \<not> js_gt (ratio x) (ratio r)"
        by blast
      from d(4) True have "js_gt (ratio r) br" by (blast intro: js_gt_trans)
      with d have "item # rest = (item # pre) @ r # post \<and> res = Some r \<and> price r > 0
            \<and> js_gt (ratio r) br
            \<and> (\<forall>x\<in>set (item # pre). price x > 0 \<longrightarrow> js_gt (ratio r) (ratio x))
            \<and> (\<forall>x\<in>set post. price x > 0 \<longrightarrow> \<not> js_gt (ratio x) (ratio r))"
        by simp
      then have "\<exists>pre r post. item # rest = pre @ r # post \<and> res = Some r \<and> price r > 0
            \<and> js_gt (ratio r) br
            \<and> (\<forall>x\<in>set pre. price x > 0 \<longrightarrow> js_gt (ratio r) (ratio x))
            \<and> (\<forall>x\<in>set post. price x > 0 \<longrightarrow> \<not> js_gt (ratio x) (ratio r))"
        by blast
      with res step show ?thesis by simp
    qed
  next
    case False
    then have step: "bestValue_loop (item # rest) best br = bestValue_loop rest best br"
      by (auto simp: js_div_ratio)
    from False have here: "price item > 0 \<longrightarrow> \<not> js_gt (ratio item) br" by auto
    from Cons.IH [of best br] obtain res where
      res: "bestValue_loop rest best br = Inr res"
      and alt: "(res = best \<and> (\<forall>x\<in>set rest. price x > 0 \<longrightarrow> \<not> js_gt (ratio x) br))
        \<or> (\<exists>pre r post. rest = pre @ r # post \<and> res = Some r \<and> price r > 0 \<and> js_gt (ratio r) br
            \<and> (\<forall>x\<in>set pre. price x > 0 \<longrightarrow> js_gt (ratio r) (ratio x))
            \<and> (\<forall>x\<in>set post. price x > 0 \<longrightarrow> \<not> js_gt (ratio x) (ratio r)))"
      by blast
    from alt show ?thesis
    proof
      assume "res = best \<and> (\<forall>x\<in>set rest. price x > 0 \<longrightarrow> \<not> js_gt (ratio x) br)"
      with here res step show ?thesis by simp
    next
      assume "\<exists>pre r post. rest = pre @ r # post \<and> res = Some r \<and> price r > 0 \<and> js_gt (ratio r) br
            \<and> (\<forall>x\<in>set pre. price x > 0 \<longrightarrow> js_gt (ratio r) (ratio x))
            \<and> (\<forall>x\<in>set post. price x > 0 \<longrightarrow> \<not> js_gt (ratio x) (ratio r))"
      then obtain pre r post where d: "rest = pre @ r # post" "res = Some r" "price r > 0"
        "js_gt (ratio r) br" "\<forall>x\<in>set pre. price x > 0 \<longrightarrow> js_gt (ratio r) (ratio x)"
        "\<forall>x\<in>set post. price x > 0 \<longrightarrow> \<not> js_gt (ratio x) (ratio r)"
        by blast
      have "price item > 0 \<longrightarrow> js_gt (ratio r) (ratio item)"
        using here d(4) ratio_not_NaN [of item] by (blast intro: js_gt_below)
      with d have "item # rest = (item # pre) @ r # post \<and> res = Some r \<and> price r > 0
            \<and> js_gt (ratio r) br
            \<and> (\<forall>x\<in>set (item # pre). price x > 0 \<longrightarrow> js_gt (ratio r) (ratio x))
            \<and> (\<forall>x\<in>set post. price x > 0 \<longrightarrow> \<not> js_gt (ratio x) (ratio r))"
        by simp
      then have "\<exists>pre r post. item # rest = pre @ r # post \<and> res = Some r \<and> price r > 0
            \<and> js_gt (ratio r) br
            \<and> (\<forall>x\<in>set pre. price x > 0 \<longrightarrow> js_gt (ratio r) (ratio x))
            \<and> (\<forall>x\<in>set post. price x > 0 \<longrightarrow> \<not> js_gt (ratio x) (ratio r))"
        by blast
      with res step show ?thesis by simp
    qed
  qed
qed

text \<open>
  Claim C3, as the code has it. The ratio of a listing is the double that the division
  of the program gives, \<open>ratio\<close>, and ratios are compared as the program compares them.
  \<^verbatim>\<open>computeBestValue\<close> returns the first listing that attains the greatest ratio among the
  listings of positive price, when that ratio is greater than zero: the current array
  is \<open>pre @ r # post\<close> where \<open>r\<close> is the result, the ratio of \<open>r\<close> is greater than the one
  of every listing of positive price in \<open>pre\<close>, and no listing of positive price in
  \<open>post\<close> has a greater ratio than \<open>r\<close> (an equal one does not replace it). It returns
  nothing exactly when no listing of positive price has a ratio greater than zero, as
  for the empty array and for prices that are all at most zero. No listing of price at
  most zero is divided.
\<close>

theorem best_value_is_first_maximal_computed_ratio:
  "\<exists>res. computeBestValue h = Inr res
     \<and> (res = None \<longleftrightarrow> (\<forall>x\<in>set (current h). price x > 0 \<longrightarrow> \<not> js_gt (ratio x) (Num 0)))
     \<and> (current h = [] \<longrightarrow> res = None)
     \<and> ((\<forall>x\<in>set (current h). price x \<le> 0) \<longrightarrow> res = None)
     \<and> (\<forall>r. res = Some r \<longrightarrow>
           (\<exists>pre post. current h = pre @ r # post \<and> price r > 0 \<and> js_gt (ratio r) (Num 0)
              \<and> (\<forall>x\<in>set pre. price x > 0 \<longrightarrow> js_gt (ratio r) (ratio x))
              \<and> (\<forall>x\<in>set post. price x > 0 \<longrightarrow> \<not> js_gt (ratio x) (ratio r))))"
proof -
  from bestValue_loop_result [of "current h" None "Num 0"] obtain res where
    res: "bestValue_loop (current h) None (Num 0) = Inr res"
    and alt: "(res = None \<and> (\<forall>x\<in>set (current h). price x > 0 \<longrightarrow> \<not> js_gt (ratio x) (Num 0)))
      \<or> (\<exists>pre r post. current h = pre @ r # post \<and> res = Some r \<and> price r > 0
            \<and> js_gt (ratio r) (Num 0)
            \<and> (\<forall>x\<in>set pre. price x > 0 \<longrightarrow> js_gt (ratio r) (ratio x))
            \<and> (\<forall>x\<in>set post. price x > 0 \<longrightarrow> \<not> js_gt (ratio x) (ratio r)))"
    by blast
  from alt have "(res = None \<longleftrightarrow> (\<forall>x\<in>set (current h). price x > 0 \<longrightarrow> \<not> js_gt (ratio x) (Num 0)))
     \<and> (current h = [] \<longrightarrow> res = None)
     \<and> ((\<forall>x\<in>set (current h). price x \<le> 0) \<longrightarrow> res = None)
     \<and> (\<forall>r. res = Some r \<longrightarrow>
           (\<exists>pre post. current h = pre @ r # post \<and> price r > 0 \<and> js_gt (ratio r) (Num 0)
              \<and> (\<forall>x\<in>set pre. price x > 0 \<longrightarrow> js_gt (ratio r) (ratio x))
              \<and> (\<forall>x\<in>set post. price x > 0 \<longrightarrow> \<not> js_gt (ratio x) (ratio r))))"
  proof
    assume "res = None \<and> (\<forall>x\<in>set (current h). price x > 0 \<longrightarrow> \<not> js_gt (ratio x) (Num 0))"
    then show ?thesis by simp
  next
    assume "\<exists>pre r post. current h = pre @ r # post \<and> res = Some r \<and> price r > 0
            \<and> js_gt (ratio r) (Num 0)
            \<and> (\<forall>x\<in>set pre. price x > 0 \<longrightarrow> js_gt (ratio r) (ratio x))
            \<and> (\<forall>x\<in>set post. price x > 0 \<longrightarrow> \<not> js_gt (ratio x) (ratio r))"
    then obtain pre r post where d: "current h = pre @ r # post" "res = Some r" "price r > 0"
        "js_gt (ratio r) (Num 0)" "\<forall>x\<in>set pre. price x > 0 \<longrightarrow> js_gt (ratio r) (ratio x)"
        "\<forall>x\<in>set post. price x > 0 \<longrightarrow> \<not> js_gt (ratio x) (ratio r)"
      by blast
    have "r \<in> set (current h)" using d(1) by simp
    with d(3,4) have no: "\<not> (\<forall>x\<in>set (current h). price x > 0 \<longrightarrow> \<not> js_gt (ratio x) (Num 0))"
      "\<not> (\<forall>x\<in>set (current h). price x \<le> 0)" "current h \<noteq> []"
      by (auto simp: not_le)
    have "\<exists>pre post. current h = pre @ r # post \<and> price r > 0 \<and> js_gt (ratio r) (Num 0)
              \<and> (\<forall>x\<in>set pre. price x > 0 \<longrightarrow> js_gt (ratio r) (ratio x))
              \<and> (\<forall>x\<in>set post. price x > 0 \<longrightarrow> \<not> js_gt (ratio x) (ratio r))"
      using d by blast
    with no d(2) show ?thesis by simp
  qed
  with res show ?thesis by (simp add: computeBestValue_def)
qed

theorem best_value_is_first_maximal_computed_ratio_witness:
  "computeBestValue (createDataHandler [row 50 1 25 ''7'', row 0 1 10 ''8'', row 100 2 80 ''9''])
     = Inr (Some (row 100 2 80 ''9''))
   \<and> ratio (row 50 1 25 ''7'') = Num (1 / 2)
   \<and> ratio (row 100 2 80 ''9'') = Num (3602879701896397 / 4503599627370496)
   \<and> computeBestValue (createDataHandler [row 0 1 25 ''7'', row 0 2 50 ''9'']) = Inr None
   \<and> computeBestValue (createDataHandler []) = Inr None"
  using best_value_is_first_maximal_computed_ratio
          [of "createDataHandler [row 50 1 25 ''7'', row 0 1 10 ''8'', row 100 2 80 ''9'']"]
    best_value_is_first_maximal_computed_ratio [of "createDataHandler []"]
        round_double_small_integers round_double_four_fifths
  by (simp add: computeBestValue_def createDataHandler_def current_def row_def js_div_def
        ratio_def)

text \<open>
  Claim C3 as stated, with the exact ratio of score to price, fails. The scores 3.0 and
  4.9 of the file are the doubles \<open>3\<close> and \<open>2758454771764429 / 2\<^sup>4\<^sup>9\<close>. The second listing
  has the greater exact ratio, both quotients round to the double of 0.1, and the first
  listing is returned.
\<close>

theorem best_value_not_the_greatest_exact_ratio:
  "computeBestValue (createDataHandler
       [row 30 1 3 ''7'', row 49 1 (2758454771764429 / 562949953421312) ''8''])
     = Inr (Some (row 30 1 3 ''7''))
   \<and> round_double (49 / 10) = Num (2758454771764429 / 562949953421312)
   \<and> 0 < price (row 49 1 (2758454771764429 / 562949953421312) ''8'')
   \<and> exact_ratio (row 30 1 3 ''7'') < exact_ratio (row 49 1 (2758454771764429 / 562949953421312) ''8'')
   \<and> ratio (row 30 1 3 ''7'') = Num (3602879701896397 / 36028797018963968)
   \<and> ratio (row 49 1 (2758454771764429 / 562949953421312) ''8'')
       = Num (3602879701896397 / 36028797018963968)"
  using round_double_tenth round_double_4_9 round_double_4_9_by_49
  by (simp add: computeBestValue_def createDataHandler_def current_def row_def js_div_def
        ratio_def exact_ratio_def)


section \<open>The statistics\<close>

lemma num_or_zero: "num_or x 0 = x"
  by (simp add: num_or_def)

lemma fold_totalPrice:
  "fold (\<lambda>item sum. double_add sum (num_or (price item) 0)) xs a
     = double_sum_from a (map price xs)"
  by (induction xs arbitrary: a) (simp_all add: num_or_zero double_sum_from_def)

lemma double_sum_from_Cons:
  "double_sum_from s (p # ps) = double_sum_from (double_add s p) ps"
  by (simp add: double_sum_from_def)

lemma double_sum_from_Nil: "double_sum_from s [] = s"
  by (simp add: double_sum_from_def)

lemma double_sum_from_exact:
  "exact_sums_from a ps \<Longrightarrow> double_sum_from (Num a) ps = Num (a + sum_list ps)"
  by (induction ps arbitrary: a)
     (simp_all add: double_sum_from_Nil double_sum_from_Cons add.assoc)

lemma double_mean_exact:
  assumes "ps \<noteq> []" "exact_mean ps"
  shows "double_mean ps = Num (sum_list ps / real (length ps))"
  using assms double_sum_from_exact [of 0 ps]
  by (simp add: double_mean_def exact_mean_def)

lemma update_absent: "map_of al k = None \<Longrightarrow> AList.update k v al = al @ [(k, v)]"
  by (induction al) (auto split: if_splits)

lemma update_created: "map_of al k = None \<Longrightarrow> AList.update k v (al @ [(k, w)]) = al @ [(k, v)]"
  by (induction al) (auto split: if_splits)

lemma byRooms_step_eq:
  "byRooms_step acc item =
     Inr (AList.update (bedrooms item)
            \<lparr>bucket_total = double_add (bucket_total (bucket_at acc (bedrooms item))) (price item),
             bucket_count = bucket_count (bucket_at acc (bedrooms item)) + 1\<rparr> acc)"
proof (cases "map_of acc (bedrooms item)")
  case None
  then show ?thesis
    by (simp add: byRooms_step_def num_or_zero bucket_at_def update_created update_absent
          map_add_def)
next
  case (Some obj)
  then show ?thesis
    by (cases obj) (simp add: byRooms_step_def num_or_zero bucket_at_def)
qed

lemma bucket_at_update:
  "bucket_at (AList.update k v acc) k' = (if k' = k then v else bucket_at acc k')"
  by (simp add: bucket_at_def update_conv')

lemma reduce_byRooms:
  "\<exists>acc'. reduce byRooms_step xs acc = Inr acc'
     \<and> (distinct (map fst acc) \<longrightarrow> distinct (map fst acc'))
     \<and> fst ` set acc' = fst ` set acc \<union> bedrooms ` set xs
     \<and> (\<forall>k. bucket_total (bucket_at acc' k)
              = double_sum_from (bucket_total (bucket_at acc k))
                  (map price (filter (\<lambda>r. bedrooms r = k) xs))
            \<and> bucket_count (bucket_at acc' k)
              = bucket_count (bucket_at acc k) + length (filter (\<lambda>r. bedrooms r = k) xs))"
proof (induction xs arbitrary: acc)
  case Nil
  show ?case by (simp add: double_sum_from_Nil)
next
  case (Cons item rest)
  let ?acc1 = "AList.update (bedrooms item)
            \<lparr>bucket_total = double_add (bucket_total (bucket_at acc (bedrooms item))) (price item),
             bucket_count = bucket_count (bucket_at acc (bedrooms item)) + 1\<rparr> acc"
  have step: "reduce byRooms_step (item # rest) acc = reduce byRooms_step rest ?acc1"
    by (simp add: byRooms_step_eq)
  from Cons.IH [of ?acc1] obtain acc' where
    r: "reduce byRooms_step rest ?acc1 = Inr acc'"
    and d: "distinct (map fst ?acc1) \<longrightarrow> distinct (map fst acc')"
    and k: "fst ` set acc' = fst ` set ?acc1 \<union> bedrooms ` set rest"
    and b: "\<forall>k. bucket_total (bucket_at acc' k)
              = double_sum_from (bucket_total (bucket_at ?acc1 k))
                  (map price (filter (\<lambda>r. bedrooms r = k) rest))
            \<and> bucket_count (bucket_at acc' k)
              = bucket_count (bucket_at ?acc1 k) + length (filter (\<lambda>r. bedrooms r = k) rest)"
    by blast
  have d': "distinct (map fst acc) \<longrightarrow> distinct (map fst acc')"
    using d by (simp add: distinct_update)
  have k': "fst ` set acc' = fst ` set acc \<union> bedrooms ` set (item # rest)"
    using k by (simp add: dom_update)
  have b': "\<forall>k. bucket_total (bucket_at acc' k)
              = double_sum_from (bucket_total (bucket_at acc k))
                  (map price (filter (\<lambda>r. bedrooms r = k) (item # rest)))
            \<and> bucket_count (bucket_at acc' k)
              = bucket_count (bucket_at acc k) + length (filter (\<lambda>r. bedrooms r = k) (item # rest))"
    using b by (simp add: bucket_at_update double_sum_from_Cons)
  from r d' k' b' step show ?case by simp
qed

lemma avg_entries_eq:
  "\<forall>p\<in>set al. bucket_count (snd p) \<noteq> 0 \<Longrightarrow>
     avg_entries al =
       Inr (map (\<lambda>(k, obj). (k, double_div (bucket_total obj) (real (bucket_count obj)))) al)"
  by (induction al) (auto simp: js_div_def)

lemma bucket_at_member:
  "distinct (map fst al) \<Longrightarrow> (k, obj) \<in> set al \<Longrightarrow> bucket_at al k = obj"
  by (simp add: bucket_at_def)

lemma bucket_at_map_of:
  "k \<in> fst ` set al \<Longrightarrow> map_of al k = Some (bucket_at al k)"
  by (cases "map_of al k") (auto simp: bucket_at_def map_of_eq_None_iff)

lemma computeStats_empty:
  "current h = [] \<Longrightarrow>
     computeStats h = Inr \<lparr>totalListings = 0, avgPrice = Num 0, avgPriceByBedrooms = []\<rparr>"
  by (simp add: computeStats_def)

lemma computeStats_nonempty:
  assumes "current h \<noteq> []"
  shows "\<exists>byRooms. distinct (map fst byRooms)
      \<and> fst ` set byRooms = bedrooms ` set (current h)
      \<and> (\<forall>k. bucket_total (bucket_at byRooms k)
                 = double_sum_from (Num 0) (map price (filter (\<lambda>r. bedrooms r = k) (current h)))
               \<and> bucket_count (bucket_at byRooms k)
                 = length (filter (\<lambda>r. bedrooms r = k) (current h)))
      \<and> computeStats h =
          Inr \<lparr>totalListings = length (current h),
               avgPrice = double_mean (map price (current h)),
               avgPriceByBedrooms =
                 map (\<lambda>(k, obj). (k, double_div (bucket_total obj) (real (bucket_count obj))))
                   byRooms\<rparr>"
proof -
  let ?xs = "current h"
  from reduce_byRooms [of ?xs "[]"] obtain byRooms where
    r: "reduce byRooms_step ?xs [] = Inr byRooms"
    and d: "distinct (map fst byRooms)"
    and k: "fst ` set byRooms = bedrooms ` set ?xs"
    and b: "\<And>k. bucket_total (bucket_at byRooms k)
                 = double_sum_from (Num 0) (map price (filter (\<lambda>r. bedrooms r = k) ?xs))"
           "\<And>k. bucket_count (bucket_at byRooms k) = length (filter (\<lambda>r. bedrooms r = k) ?xs)"
    by (auto simp: bucket_at_def)
  have pos: "\<forall>p\<in>set byRooms. bucket_count (snd p) \<noteq> 0"
  proof
    fix p assume p: "p \<in> set byRooms"
    then have "fst p \<in> bedrooms ` set ?xs" using k by force
    then have "filter (\<lambda>r. bedrooms r = fst p) ?xs \<noteq> []"
      by (auto simp: filter_empty_conv)
    moreover have "bucket_at byRooms (fst p) = snd p"
      using bucket_at_member [OF d, of "fst p" "snd p"] p by simp
    ultimately show "bucket_count (snd p) \<noteq> 0"
      using b(2) [of "fst p"] by simp
  qed
  have a: "avg_entries byRooms =
      Inr (map (\<lambda>(k, obj). (k, double_div (bucket_total obj) (real (bucket_count obj)))) byRooms)"
    using pos by (rule avg_entries_eq)
  have "computeStats h = Inr \<lparr>totalListings = length ?xs,
          avgPrice = double_mean (map price ?xs),
          avgPriceByBedrooms =
            map (\<lambda>(k, obj). (k, double_div (bucket_total obj) (real (bucket_count obj)))) byRooms\<rparr>"
    using assms r a
    by (simp add: computeStats_def Let_def fold_totalPrice js_div_def double_mean_def)
  with d k b show ?thesis by blast
qed

text \<open>
  Claim C5, as the code has it. \<^verbatim>\<open>computeStats\<close> returns the number of current listings,
  the mean of their prices in double arithmetic (the prices added one by one to zero in
  the order of the array, the sum divided by the number, each operation rounded; zero
  for the empty array, where nothing is divided), and a mapping whose keys are the
  numbers of bedrooms that occur, each sent to the mean in double arithmetic of the
  prices of the listings with that number of bedrooms, in the order of the array; the
  mapping is empty for the empty array. Where no operation rounds, these are the
  arithmetic means.
\<close>

theorem computeStats_count_and_double_means:
  "\<exists>s. computeStats h = Inr s
     \<and> totalListings s = length (current h)
     \<and> avgPrice s = (if current h = [] then Num 0 else double_mean (map price (current h)))
     \<and> distinct (map fst (avgPriceByBedrooms s))
     \<and> (\<forall>b. map_of (avgPriceByBedrooms s) b =
           (if b \<in> bedrooms ` set (current h)
            then Some (double_mean (map price (filter (\<lambda>r. bedrooms r = b) (current h))))
            else None))
     \<and> (current h = [] \<longrightarrow> avgPriceByBedrooms s = [])
     \<and> (current h \<noteq> [] \<and> exact_mean (map price (current h)) \<longrightarrow>
           avgPrice s = Num (sum_list (map price (current h)) / real (length (current h))))
     \<and> (\<forall>b. b \<in> bedrooms ` set (current h)
             \<and> exact_mean (map price (filter (\<lambda>r. bedrooms r = b) (current h))) \<longrightarrow>
           map_of (avgPriceByBedrooms s) b =
             Some (Num (sum_list (map price (filter (\<lambda>r. bedrooms r = b) (current h)))
                        / real (length (filter (\<lambda>r. bedrooms r = b) (current h))))))"
proof (cases "current h = []")
  case True
  then show ?thesis by (simp add: computeStats_empty)
next
  case False
  let ?xs = "current h"
  from computeStats_nonempty [OF False] obtain byRooms where
    d: "distinct (map fst byRooms)"
    and k: "fst ` set byRooms = bedrooms ` set ?xs"
    and b: "\<And>k. bucket_total (bucket_at byRooms k)
                 = double_sum_from (Num 0) (map price (filter (\<lambda>r. bedrooms r = k) ?xs))"
           "\<And>k. bucket_count (bucket_at byRooms k) = length (filter (\<lambda>r. bedrooms r = k) ?xs)"
    and cs: "computeStats h = Inr \<lparr>totalListings = length ?xs,
          avgPrice = double_mean (map price ?xs),
          avgPriceByBedrooms =
            map (\<lambda>(k, obj). (k, double_div (bucket_total obj) (real (bucket_count obj)))) byRooms\<rparr>"
    by blast
  let ?avgs = "map (\<lambda>(k, obj). (k, double_div (bucket_total obj) (real (bucket_count obj)))) byRooms"
  have fst_avgs: "map fst ?avgs = map fst byRooms"
    by (induction byRooms) auto
  have look: "map_of ?avgs b =
           (if b \<in> bedrooms ` set ?xs
            then Some (double_mean (map price (filter (\<lambda>r. bedrooms r = b) ?xs)))
            else None)" for b
  proof (cases "b \<in> bedrooms ` set ?xs")
    case True
    then have "map_of byRooms b = Some (bucket_at byRooms b)"
      using k bucket_at_map_of [of b byRooms] by simp
    then show ?thesis
      using True b by (simp add: map_of_map double_mean_def)
  next
    case False
    then have "map_of byRooms b = None"
      using k by (simp add: map_of_eq_None_iff)
    then show ?thesis
      using False by (simp add: map_of_map)
  qed
  have ex1: "exact_mean (map price ?xs) \<longrightarrow>
      double_mean (map price ?xs) = Num (sum_list (map price ?xs) / real (length ?xs))"
    using False double_mean_exact [of "map price ?xs"] by simp
  have ex2: "b \<in> bedrooms ` set ?xs
             \<and> exact_mean (map price (filter (\<lambda>r. bedrooms r = b) ?xs)) \<longrightarrow>
           double_mean (map price (filter (\<lambda>r. bedrooms r = b) ?xs)) =
             Num (sum_list (map price (filter (\<lambda>r. bedrooms r = b) ?xs))
                        / real (length (filter (\<lambda>r. bedrooms r = b) ?xs)))" for b
  proof (intro impI)
    assume a: "b \<in> bedrooms ` set ?xs
             \<and> exact_mean (map price (filter (\<lambda>r. bedrooms r = b) ?xs))"
    then have "filter (\<lambda>r. bedrooms r = b) ?xs \<noteq> []"
      by (auto simp: filter_empty_conv)
    with a show "double_mean (map price (filter (\<lambda>r. bedrooms r = b) ?xs)) =
             Num (sum_list (map price (filter (\<lambda>r. bedrooms r = b) ?xs))
                        / real (length (filter (\<lambda>r. bedrooms r = b) ?xs)))"
      using double_mean_exact [of "map price (filter (\<lambda>r. bedrooms r = b) ?xs)"] by simp
  qed
  have "distinct (map fst ?avgs)"
    using d by (simp only: fst_avgs)
  with cs show ?thesis
    using False look ex1 ex2 by simp
qed

theorem computeStats_count_and_double_means_witness:
  "exact_mean [100, 200, 300]
   \<and> computeStats (createDataHandler [row 100 1 90 ''7'', row 200 1 80 ''8'', row 300 2 70 ''9''])
     = Inr \<lparr>totalListings = 3, avgPrice = Num 200,
            avgPriceByBedrooms = [(1, Num 150), (2, Num 300)]\<rparr>
   \<and> computeStats (createDataHandler [])
     = Inr \<lparr>totalListings = 0, avgPrice = Num 0, avgPriceByBedrooms = []\<rparr>"
  using computeStats_count_and_double_means
          [of "createDataHandler [row 100 1 90 ''7'', row 200 1 80 ''8'', row 300 2 70 ''9'']"]
        computeStats_count_and_double_means [of "createDataHandler []"]
        round_double_small_integers
  by (simp add: computeStats_def Let_def byRooms_step_def num_or_def js_div_def
        createDataHandler_def current_def row_def exact_mean_def)

text \<open>
  Claim C5 as stated, with the arithmetic mean, fails. For the prices 1, 1 and 2 the sum
  is 4 and the quotient by 3 is rounded: the mean that is returned is the double
  \<open>6004799503160661 / 2\<^sup>5\<^sup>2\<close>, which is not \<open>4 / 3\<close>.
\<close>

theorem computeStats_mean_is_rounded:
  "computeStats (createDataHandler [row 1 1 90 ''7'', row 1 1 80 ''8'', row 2 1 70 ''9''])
     = Inr \<lparr>totalListings = 3, avgPrice = Num (6004799503160661 / 4503599627370496),
            avgPriceByBedrooms = [(1, Num (6004799503160661 / 4503599627370496))]\<rparr>
   \<and> (6004799503160661 / 4503599627370496 :: real) \<noteq> (1 + 1 + 2) / 3"
  using round_double_small_integers round_double_four_thirds
  by (simp add: computeStats_def Let_def byRooms_step_def num_or_def js_div_def
        createDataHandler_def current_def row_def)


section \<open>The ranking of hosts\<close>

lemma map_fst_update: "map_of al k = Some w \<Longrightarrow> map fst (AList.update k v al) = map fst al"
  by (induction al) (auto split: if_splits)

lemma reduce_snoc:
  "reduce f (xs @ [x]) acc = (case reduce f xs acc of Inl e \<Rightarrow> Inl e | Inr a \<Rightarrow> f a x)"
  by (induction xs arbitrary: acc) (auto split: sum.splits)

lemma find_snoc:
  "find P (xs @ [x]) = (case find P xs of None \<Rightarrow> (if P x then Some x else None) | Some y \<Rightarrow> Some y)"
  by (induction xs) auto

lemma tally_step_skip:
  assumes "host_id item = None \<or> (\<exists>k. host_id item = Some k \<and> \<not> counted k)"
    and "\<forall>k\<in>set (map fst acc). counted k"
  shows "tally_step acc item = Inr acc"
proof (cases "host_id item")
  case None
  then show ?thesis by (simp add: tally_step_def)
next
  case (Some k)
  with assms(1) have nc: "\<not> counted k" by simp
  show ?thesis
  proof (cases "k = []")
    case True
    with Some show ?thesis by (simp add: tally_step_def)
  next
    case False
    with nc have p: "k \<in> set Object_prototype_keys" by (simp add: counted_def)
    have "k \<notin> set (map fst acc)" using assms(2) nc by blast
    then have "map_of acc k = None" by (simp add: map_of_eq_None_iff)
    with p have "js_get acc k = Inherited" by (simp add: js_get_def)
    with Some False show ?thesis by (simp add: tally_step_def)
  qed
qed

lemma tally_step_new:
  assumes "host_id item = Some k" "counted k" "map_of acc k = None"
  shows "tally_step acc item =
    Inr (acc @ [(k, \<lparr>entry_host_id = k, entry_host_name = display_name item, listingsCount = 1\<rparr>)])"
proof -
  have u: "js_get acc k = Undefined"
    using assms by (simp add: js_get_def counted_def)
  have "js_get (acc @ [(k, \<lparr>entry_host_id = k, entry_host_name = display_name item, listingsCount = 0\<rparr>)]) k
      = Own \<lparr>entry_host_id = k, entry_host_name = display_name item, listingsCount = 0\<rparr>"
    using assms(3) by (simp add: js_get_def map_add_def)
  with u assms show ?thesis
    by (simp add: tally_step_def counted_def display_name_def update_created)
qed

lemma tally_step_old:
  assumes "host_id item = Some k" "k \<noteq> []" "map_of acc k = Some e"
  shows "tally_step acc item = Inr (AList.update k (e\<lparr>listingsCount := listingsCount e + 1\<rparr>) acc)"
proof -
  have "js_get acc k = Own e" using assms(3) by (simp add: js_get_def)
  with assms show ?thesis by (simp add: tally_step_def)
qed

lemma first_pos_snoc_seen:
  "Some k \<in> host_id ` set xs \<Longrightarrow> first_pos k (xs @ [x]) = first_pos k xs"
  by (auto simp: first_pos_def)

lemma first_pos_seen_less:
  "Some k \<in> host_id ` set xs \<Longrightarrow> first_pos k xs < length xs"
proof -
  assume "Some k \<in> host_id ` set xs"
  then have "takeWhile (\<lambda>r. host_id r \<noteq> Some k) xs \<noteq> xs"
    by auto
  then show ?thesis
    unfolding first_pos_def
    using length_takeWhile_le [of "\<lambda>r. host_id r \<noteq> Some k" xs]
    by (metis le_neq_implies_less length_takeWhile_le takeWhile_eq_take take_all_iff order_refl)
qed

lemma first_pos_snoc_new:
  "Some k \<notin> host_id ` set xs \<Longrightarrow> host_id x = Some k \<Longrightarrow> first_pos k (xs @ [x]) = length xs"
proof -
  assume a: "Some k \<notin> host_id ` set xs" and b: "host_id x = Some k"
  have "\<And>r. r \<in> set xs \<Longrightarrow> host_id r \<noteq> Some k" using a by force
  then have "takeWhile (\<lambda>r. host_id r \<noteq> Some k) (xs @ [x]) = xs @ takeWhile (\<lambda>r. host_id r \<noteq> Some k) [x]"
    by (rule takeWhile_append2)
  with b show ?thesis by (simp add: first_pos_def)
qed

lemma entry_for_snoc_other:
  "host_id x \<noteq> Some k \<Longrightarrow> Some k \<in> host_id ` set xs \<Longrightarrow> entry_for k (xs @ [x]) = entry_for k xs"
  by (auto simp: entry_for_def find_snoc split: option.splits)

lemma entry_for_snoc_same:
  "host_id x = Some k \<Longrightarrow> Some k \<in> host_id ` set xs \<Longrightarrow>
     entry_for k (xs @ [x]) = (entry_for k xs)\<lparr>listingsCount := listingsCount (entry_for k xs) + 1\<rparr>"
  by (auto simp: entry_for_def find_snoc find_None_iff split: option.splits)

lemma entry_for_snoc_first:
  "host_id x = Some k \<Longrightarrow> Some k \<notin> host_id ` set xs \<Longrightarrow>
     entry_for k (xs @ [x]) = \<lparr>entry_host_id = k, entry_host_name = display_name x, listingsCount = 1\<rparr>"
proof -
  assume a: "host_id x = Some k" and b: "Some k \<notin> host_id ` set xs"
  from b have n: "\<And>r. r \<in> set xs \<Longrightarrow> host_id r \<noteq> Some k" by force
  then have "find (\<lambda>r. host_id r = Some k) xs = None" by (simp add: find_None_iff)
  moreover have "filter (\<lambda>r. host_id r = Some k) xs = []" using n by (simp add: filter_empty_conv)
  ultimately show ?thesis using a by (simp add: entry_for_def find_snoc)
qed

lemma keys_sorted_snoc:
  assumes "sorted_wrt (\<lambda>a b. first_pos a xs < first_pos b xs) ks"
    and "\<forall>k\<in>set ks. Some k \<in> host_id ` set xs"
  shows "sorted_wrt (\<lambda>a b. first_pos a (xs @ [x]) < first_pos b (xs @ [x])) ks"
proof (rule sorted_wrt_mono_rel [OF _ assms(1)])
  fix a b
  assume "a \<in> set ks" "b \<in> set ks" "first_pos a xs < first_pos b xs"
  then show "first_pos a (xs @ [x]) < first_pos b (xs @ [x])"
    using assms(2) by (simp add: first_pos_snoc_seen)
qed

lemma tally_of_keys_seen:
  "tally_of xs t \<Longrightarrow> \<forall>k\<in>set (map fst t). counted k \<and> Some k \<in> host_id ` set xs"
  by (simp add: tally_of_def)

lemma tally_of_skip:
  assumes inv: "tally_of xs t"
    and skip: "host_id x = None \<or> (\<exists>k. host_id x = Some k \<and> \<not> counted k)"
  shows "tally_of (xs @ [x]) t"
proof -
  from inv have d: "distinct (map fst t)"
    and ks: "set (map fst t) = {k. counted k \<and> Some k \<in> host_id ` set xs}"
    and so: "sorted_wrt (\<lambda>a b. first_pos a xs < first_pos b xs) (map fst t)"
    and en: "\<And>k e. map_of t k = Some e \<Longrightarrow> e = entry_for k xs"
    by (simp_all add: tally_of_def)
  have other: "counted k \<Longrightarrow> host_id x \<noteq> Some k" for k
    using skip by auto
  have other': "counted k \<Longrightarrow> Some k \<noteq> host_id x" for k
    using other [of k] by auto
  have ks': "set (map fst t) = {k. counted k \<and> Some k \<in> host_id ` set (xs @ [x])}"
    using ks other other' by auto
  have so': "sorted_wrt (\<lambda>a b. first_pos a (xs @ [x]) < first_pos b (xs @ [x])) (map fst t)"
    using so tally_of_keys_seen [OF inv] by (intro keys_sorted_snoc) simp_all
  have en': "e = entry_for k (xs @ [x])" if "map_of t k = Some e" for k e
  proof -
    from that have "k \<in> set (map fst t)" by (force dest: map_of_SomeD)
    then have "counted k" "Some k \<in> host_id ` set xs" using ks by auto
    then show ?thesis using en [OF that] other by (simp add: entry_for_snoc_other)
  qed
  from d ks' so' en' show ?thesis unfolding tally_of_def by blast
qed

lemma tally_of_new:
  assumes inv: "tally_of xs t"
    and x: "host_id x = Some k" "counted k" "map_of t k = None"
  shows "tally_of (xs @ [x])
           (t @ [(k, \<lparr>entry_host_id = k, entry_host_name = display_name x, listingsCount = 1\<rparr>)])"
proof -
  let ?e = "\<lparr>entry_host_id = k, entry_host_name = display_name x, listingsCount = 1\<rparr>"
  from inv have d: "distinct (map fst t)"
    and ks: "set (map fst t) = {k. counted k \<and> Some k \<in> host_id ` set xs}"
    and so: "sorted_wrt (\<lambda>a b. first_pos a xs < first_pos b xs) (map fst t)"
    and en: "\<And>k e. map_of t k = Some e \<Longrightarrow> e = entry_for k xs"
    by (simp_all add: tally_of_def)
  from x(3) have fresh: "k \<notin> set (map fst t)" by (simp add: map_of_eq_None_iff)
  with ks x(2) have unseen: "Some k \<notin> host_id ` set xs" by auto
  have d': "distinct (map fst (t @ [(k, ?e)]))" using d fresh by simp
  have ks': "set (map fst (t @ [(k, ?e)])) = {k. counted k \<and> Some k \<in> host_id ` set (xs @ [x])}"
    using ks x(1,2) by auto
  have old: "sorted_wrt (\<lambda>a b. first_pos a (xs @ [x]) < first_pos b (xs @ [x])) (map fst t)"
    using so tally_of_keys_seen [OF inv] by (intro keys_sorted_snoc) simp_all
  have last: "first_pos a (xs @ [x]) < first_pos k (xs @ [x])" if "a \<in> set (map fst t)" for a
  proof -
    from that ks have "Some a \<in> host_id ` set xs" by auto
    then show ?thesis
      using first_pos_seen_less [of a xs] first_pos_snoc_new [OF unseen x(1)]
      by (simp add: first_pos_snoc_seen)
  qed
  have so': "sorted_wrt (\<lambda>a b. first_pos a (xs @ [x]) < first_pos b (xs @ [x])) (map fst (t @ [(k, ?e)]))"
    using old last by (simp add: sorted_wrt_append)
  have en': "e = entry_for k' (xs @ [x])" if "map_of (t @ [(k, ?e)]) k' = Some e" for k' e
  proof (cases "map_of t k'")
    case None
    with that have "k' = k" "e = ?e" by (auto simp: map_add_def split: if_splits)
    then show ?thesis using entry_for_snoc_first [OF x(1) unseen] by simp
  next
    case (Some e')
    with that have e: "e = e'" by (simp add: map_add_def)
    from Some have "k' \<in> set (map fst t)" by (force dest: map_of_SomeD)
    with ks fresh have "Some k' \<in> host_id ` set xs" "k' \<noteq> k" by auto
    then show ?thesis using en [OF Some] e x(1) by (simp add: entry_for_snoc_other)
  qed
  from d' ks' so' en' show ?thesis unfolding tally_of_def by blast
qed

lemma tally_of_old:
  assumes inv: "tally_of xs t"
    and x: "host_id x = Some k" "map_of t k = Some e"
  shows "tally_of (xs @ [x]) (AList.update k (e\<lparr>listingsCount := listingsCount e + 1\<rparr>) t)"
proof -
  let ?t = "AList.update k (e\<lparr>listingsCount := listingsCount e + 1\<rparr>) t"
  from inv have d: "distinct (map fst t)"
    and ks: "set (map fst t) = {k. counted k \<and> Some k \<in> host_id ` set xs}"
    and so: "sorted_wrt (\<lambda>a b. first_pos a xs < first_pos b xs) (map fst t)"
    and en: "\<And>k e. map_of t k = Some e \<Longrightarrow> e = entry_for k xs"
    by (simp_all add: tally_of_def)
  have same: "map fst ?t = map fst t" using x(2) by (rule map_fst_update)
  from x(2) have "k \<in> set (map fst t)" by (force dest: map_of_SomeD)
  with ks have seen: "counted k" "Some k \<in> host_id ` set xs" by auto
  have ks': "set (map fst ?t) = {k. counted k \<and> Some k \<in> host_id ` set (xs @ [x])}"
    unfolding same using ks seen x(1) by auto
  have so': "sorted_wrt (\<lambda>a b. first_pos a (xs @ [x]) < first_pos b (xs @ [x])) (map fst ?t)"
    unfolding same using so tally_of_keys_seen [OF inv] by (intro keys_sorted_snoc) simp_all
  have en': "e' = entry_for k' (xs @ [x])" if "map_of ?t k' = Some e'" for k' e'
  proof (cases "k' = k")
    case True
    with that have "e' = e\<lparr>listingsCount := listingsCount e + 1\<rparr>" by (simp add: update_conv')
    then show ?thesis
      using True en [OF x(2)] entry_for_snoc_same [OF x(1) seen(2)] by simp
  next
    case False
    with that have m: "map_of t k' = Some e'" by (simp add: update_conv')
    then have "k' \<in> set (map fst t)" by (force dest: map_of_SomeD)
    with ks have "Some k' \<in> host_id ` set xs" by auto
    then show ?thesis using en [OF m] False x(1) by (simp add: entry_for_snoc_other)
  qed
  from d ks' so' en' show ?thesis unfolding tally_of_def by (simp only: same) blast
qed

lemma reduce_tally: "\<exists>t. reduce tally_step xs [] = Inr t \<and> tally_of xs t"
proof (induction xs rule: rev_induct)
  case Nil
  show ?case by (simp add: tally_of_def)
next
  case (snoc x xs)
  then obtain t where r: "reduce tally_step xs [] = Inr t" and inv: "tally_of xs t"
    by blast
  have step: "reduce tally_step (xs @ [x]) [] = tally_step t x"
    using r by (simp add: reduce_snoc)
  have cnt: "\<forall>k\<in>set (map fst t). counted k"
    using tally_of_keys_seen [OF inv] by simp
  show ?case
  proof (cases "host_id x = None \<or> (\<exists>k. host_id x = Some k \<and> \<not> counted k)")
    case True
    then have "tally_step t x = Inr t" using cnt by (rule tally_step_skip)
    with step tally_of_skip [OF inv True] show ?thesis by simp
  next
    case False
    then obtain k where k: "host_id x = Some k" "counted k" by auto
    show ?thesis
    proof (cases "map_of t k")
      case None
      from tally_step_new [OF k None] step tally_of_new [OF inv k None]
      show ?thesis by simp
    next
      case (Some e)
      from k(2) have "k \<noteq> []" by (simp add: counted_def)
      from tally_step_old [OF k(1) this Some] step tally_of_old [OF inv k(1) Some]
      show ?thesis by simp
    qed
  qed
qed

lemma set_insert_sorted: "set (insert_sorted c x ys) = insert x (set ys)"
  by (induction ys) auto

lemma Array_sort_Cons: "Array_sort c (x # xs) = insert_sorted c x (Array_sort c xs)"
  by (simp add: Array_sort_def)

lemma set_Array_sort: "set (Array_sort c xs) = set xs"
  by (induction xs) (simp_all add: Array_sort_def set_insert_sorted)

lemma length_insert_sorted: "length (insert_sorted c x ys) = Suc (length ys)"
  by (induction ys) auto

lemma length_Array_sort: "length (Array_sort c xs) = length xs"
  by (induction xs) (simp_all add: Array_sort_def length_insert_sorted)

lemma ranked_before_count: "ranked_before tie e f \<Longrightarrow> listingsCount f \<le> listingsCount e"
  by (auto simp: ranked_before_def)

lemma insert_sorted_ranked:
  assumes "sorted_wrt (ranked_before tie) ys"
    and "\<forall>y\<in>set ys. tie (entry_host_id x) (entry_host_id y)"
  shows "sorted_wrt (ranked_before tie)
           (insert_sorted (\<lambda>a b. int (listingsCount b) - int (listingsCount a)) x ys)"
  using assms
proof (induction ys)
  case Nil
  show ?case by simp
next
  case (Cons y ys)
  show ?case
  proof (cases "listingsCount y \<le> listingsCount x")
    case True
    have "ranked_before tie x z" if "z \<in> set (y # ys)" for z
    proof -
      have "listingsCount z \<le> listingsCount y"
        using that Cons.prems(1) by (auto dest: ranked_before_count)
      with True have "listingsCount z \<le> listingsCount x" by simp
      moreover have "tie (entry_host_id x) (entry_host_id z)"
        using that Cons.prems(2) by blast
      ultimately show ?thesis by (auto simp: ranked_before_def)
    qed
    with True Cons.prems(1) show ?thesis by simp
  next
    case False
    then have "ranked_before tie y x" by (simp add: ranked_before_def)
    moreover have "sorted_wrt (ranked_before tie)
           (insert_sorted (\<lambda>a b. int (listingsCount b) - int (listingsCount a)) x ys)"
      using Cons by simp
    ultimately show ?thesis
      using False Cons.prems(1) by (auto simp: set_insert_sorted)
  qed
qed

lemma Array_sort_ranked:
  "sorted_wrt (\<lambda>e f. tie (entry_host_id e) (entry_host_id f)) vs \<Longrightarrow>
     sorted_wrt (ranked_before tie)
       (Array_sort (\<lambda>a b. int (listingsCount b) - int (listingsCount a)) vs)"
proof (induction vs)
  case Nil
  show ?case by (simp add: Array_sort_def)
next
  case (Cons v vs)
  then show ?case
    by (simp add: Array_sort_Cons insert_sorted_ranked set_Array_sort)
qed

lemma tally_of_entry:
  assumes "tally_of xs t" "p \<in> set t"
  shows "snd p = entry_for (fst p) xs"
proof -
  from assms have "map_of t (fst p) = Some (snd p)"
    by (simp add: tally_of_def)
  with assms(1) show ?thesis by (simp add: tally_of_def)
qed

lemma entry_for_id: "entry_host_id (entry_for k xs) = k"
  by (simp add: entry_for_def)

lemma array_index_val_snoc: "array_index_val (s @ [c]) = 10 * array_index_val s + digit_val c"
  by (simp add: array_index_val_def)

lemma array_index_val_Nil: "array_index_val [] = 0"
  by (simp add: array_index_val_def)

lemma digit_val_range: "is_digit c \<Longrightarrow> 0 \<le> digit_val c \<and> digit_val c \<le> 9"
  by (auto simp: is_digit_def digit_val_def)

lemma digit_val_zero: "is_digit c \<Longrightarrow> digit_val c = 0 \<Longrightarrow> c = CHR ''0''"
  by (auto simp: is_digit_def digit_val_def)

lemma digit_val_inj: "is_digit c \<Longrightarrow> is_digit d \<Longrightarrow> digit_val c = digit_val d \<Longrightarrow> c = d"
  by (auto simp: is_digit_def digit_val_def)

lemma array_index_val_nonneg: "list_all is_digit s \<Longrightarrow> 0 \<le> array_index_val s"
proof (induction s rule: rev_induct)
  case Nil
  show ?case by (simp add: array_index_val_Nil)
next
  case (snoc c s)
  then show ?case
    using digit_val_range [of c] by (simp add: array_index_val_snoc)
qed

lemma array_index_val_pos:
  "list_all is_digit s \<Longrightarrow> s \<noteq> [] \<Longrightarrow> hd s \<noteq> CHR ''0'' \<Longrightarrow> 0 < array_index_val s"
proof (induction s rule: rev_induct)
  case Nil
  then show ?case by simp
next
  case (snoc c s)
  show ?case
  proof (cases "s = []")
    case True
    with snoc.prems have "is_digit c" "c \<noteq> CHR ''0''" by simp_all
    then have "digit_val c \<noteq> 0" using digit_val_zero by blast
    moreover have "array_index_val ([] @ [c]) = digit_val c"
      by (simp add: array_index_val_def)
    ultimately show ?thesis
      using \<open>is_digit c\<close> digit_val_range [of c] True by simp
  next
    case False
    with snoc have "0 < array_index_val s" by simp
    moreover have "0 \<le> digit_val c" using snoc.prems digit_val_range [of c] by simp
    ultimately show ?thesis by (simp add: array_index_val_snoc)
  qed
qed

lemma decimal_unique:
  assumes "list_all is_digit s" "s = [] \<or> hd s \<noteq> CHR ''0''"
    and "list_all is_digit t" "t = [] \<or> hd t \<noteq> CHR ''0''"
    and "array_index_val s = array_index_val t"
  shows "s = t"
  using assms
proof (induction s arbitrary: t rule: rev_induct)
  case Nil
  show ?case
  proof (rule ccontr)
    assume "[] \<noteq> t"
    with Nil.prems have "0 < array_index_val t" by (simp add: array_index_val_pos)
    with Nil.prems show False by (simp add: array_index_val_Nil)
  qed
next
  case (snoc c s)
  have pos: "0 < array_index_val (s @ [c])"
    using snoc.prems(1,2) by (intro array_index_val_pos) simp_all
  have "t \<noteq> []"
    using pos snoc.prems(5) by (auto simp: array_index_val_Nil)
  then obtain t' d where t: "t = t' @ [d]" by (metis rev_exhaust)
  have dc: "is_digit c" "is_digit d" and ds: "list_all is_digit s" "list_all is_digit t'"
    using snoc.prems(1,3) t by simp_all
  have eq: "10 * array_index_val s + digit_val c = 10 * array_index_val t' + digit_val d"
    using snoc.prems(5) t by (simp add: array_index_val_snoc)
  have "digit_val c = digit_val d \<and> array_index_val s = array_index_val t'"
    using eq digit_val_range [OF dc(1)] digit_val_range [OF dc(2)] by presburger
  then have cd: "c = d" and v: "array_index_val s = array_index_val t'"
    using digit_val_inj [OF dc] by simp_all
  have hs: "s = [] \<or> hd s \<noteq> CHR ''0''"
    using snoc.prems(2) by (cases s) simp_all
  have ht: "t' = [] \<or> hd t' \<noteq> CHR ''0''"
    using snoc.prems(4) t by (cases t') simp_all
  from snoc.IH [OF ds(1) hs ds(2) ht v] cd t show ?case by simp
qed

lemma array_index_val_inj:
  assumes "is_array_index a" "is_array_index b" "array_index_val a = array_index_val b"
  shows "a = b"
proof -
  have zero: "s = ''0''" if "is_array_index s" "array_index_val s = 0" for s
  proof (rule ccontr)
    assume "s \<noteq> ''0''"
    with that(1) have "list_all is_digit s" "s \<noteq> []" "hd s \<noteq> CHR ''0''"
      by (auto simp: is_array_index_def split: if_splits)
    then have "0 < array_index_val s" by (rule array_index_val_pos)
    with that(2) show False by simp
  qed
  show ?thesis
  proof (cases "array_index_val a = 0")
    case True
    with assms zero [of a] zero [of b] show ?thesis by simp
  next
    case False
    have nz: "hd s \<noteq> CHR ''0''" if "is_array_index s" "array_index_val s \<noteq> 0" for s
    proof
      assume "hd s = CHR ''0''"
      with that(1) have "s = ''0''" by (simp add: is_array_index_def)
      with that(2) show False by (simp add: array_index_val_def digit_val_def)
    qed
    from assms have "list_all is_digit a" "list_all is_digit b"
      by (simp_all add: is_array_index_def)
    moreover have "hd a \<noteq> CHR ''0''" "hd b \<noteq> CHR ''0''"
      using nz [OF assms(1)] nz [OF assms(2)] False assms(3) by simp_all
    ultimately show ?thesis
      using assms(3) by (intro decimal_unique) simp_all
  qed
qed

lemma Object_values_order:
  assumes inv: "tally_of xs t"
  shows "sorted_wrt (\<lambda>e f. values_before xs (entry_host_id e) (entry_host_id f)) (Object_values t)"
proof -
  let ?A = "sort_key (\<lambda>p. array_index_val (fst p)) (filter (\<lambda>p. is_array_index (fst p)) t)"
  let ?B = "filter (\<lambda>p. \<not> is_array_index (fst p)) t"
  let ?R = "\<lambda>p q. values_before xs (fst p) (fst q)"
  from inv have "distinct (map fst t)" by (simp add: tally_of_def)
  then have dt: "distinct t" and it: "inj_on fst (set t)"
    by (simp_all add: distinct_map)
  have "inj_on (\<lambda>p. array_index_val (fst p)) (set ?A)"
  proof (rule inj_onI)
    fix p q
    assume p: "p \<in> set ?A" and q: "q \<in> set ?A"
      and e: "array_index_val (fst p) = array_index_val (fst q)"
    then have "fst p = fst q" by (intro array_index_val_inj) simp_all
    with p q it show "p = q" by (auto dest: inj_onD)
  qed
  moreover have "distinct ?A" using dt by simp
  ultimately have "distinct (map (\<lambda>p. array_index_val (fst p)) ?A)"
    by (simp add: distinct_map)
  moreover have "sorted (map (\<lambda>p. array_index_val (fst p)) ?A)"
    by (rule sorted_sort_key)
  ultimately have "sorted_wrt (<) (map (\<lambda>p. array_index_val (fst p)) ?A)"
    by (simp add: strict_sorted_iff)
  then have "sorted_wrt (\<lambda>p q. array_index_val (fst p) < array_index_val (fst q)) ?A"
    by (simp add: sorted_wrt_map)
  then have A: "sorted_wrt ?R ?A"
    by (rule sorted_wrt_mono_rel [rotated]) (auto simp: values_before_def)
  from inv have "sorted_wrt (\<lambda>a b. first_pos a xs < first_pos b xs) (map fst t)"
    by (simp add: tally_of_def)
  then have "sorted_wrt (\<lambda>p q. first_pos (fst p) xs < first_pos (fst q) xs) t"
    by (simp add: sorted_wrt_map)
  then have "sorted_wrt (\<lambda>p q. first_pos (fst p) xs < first_pos (fst q) xs) ?B"
    by (rule sorted_wrt_filter)
  then have B: "sorted_wrt ?R ?B"
    by (rule sorted_wrt_mono_rel [rotated]) (auto simp: values_before_def)
  have AB: "\<forall>p\<in>set ?A. \<forall>q\<in>set ?B. ?R p q"
    by (auto simp: values_before_def)
  from A B AB have "sorted_wrt ?R (?A @ ?B)"
    by (simp add: sorted_wrt_append)
  then have "sorted_wrt (\<lambda>p q. values_before xs (entry_host_id (snd p)) (entry_host_id (snd q))) (?A @ ?B)"
  proof (rule sorted_wrt_mono_rel [rotated])
    fix p q
    assume "p \<in> set (?A @ ?B)" "q \<in> set (?A @ ?B)" "values_before xs (fst p) (fst q)"
    then have "p \<in> set t" "q \<in> set t" "values_before xs (fst p) (fst q)" by auto
    then show "values_before xs (entry_host_id (snd p)) (entry_host_id (snd q))"
      using tally_of_entry [OF inv] by (simp add: entry_for_id)
  qed
  then show ?thesis
    unfolding Object_values_def by (simp only: sorted_wrt_map)
qed

lemma set_Object_values: "set (Object_values t) = snd ` set t"
  by (auto simp: Object_values_def)

lemma length_Object_values: "length (Object_values t) = length t"
  by (simp add: Object_values_def sum_length_filter_compl)

lemma ranking_of_tally:
  "\<exists>t. reduce tally_step (current h) [] = Inr t \<and> tally_of (current h) t
     \<and> computeHostRanking h =
         Inr (Array_sort (\<lambda>a b. int (listingsCount b) - int (listingsCount a)) (Object_values t))"
  using reduce_tally [of "current h"] by (auto simp: computeHostRanking_def)

lemma ranking_entries:
  "\<exists>rk. computeHostRanking h = Inr rk
     \<and> distinct (map entry_host_id rk)
     \<and> set rk = {entry_for k (current h) | k. counted k \<and> Some k \<in> host_id ` set (current h)}"
proof -
  let ?xs = "current h"
  let ?c = "\<lambda>a b. int (listingsCount b) - int (listingsCount a)"
  from ranking_of_tally [of h] obtain t where inv: "tally_of ?xs t"
    and rk: "computeHostRanking h = Inr (Array_sort ?c (Object_values t))"
    by blast
  let ?rk = "Array_sort ?c (Object_values t)"
  from inv have d: "distinct (map fst t)"
    and ks: "set (map fst t) = {k. counted k \<and> Some k \<in> host_id ` set ?xs}"
    by (simp_all add: tally_of_def)
  have st: "set ?rk = snd ` set t"
    by (simp add: set_Array_sort set_Object_values)
  have img: "snd ` set t = {entry_for k ?xs | k. counted k \<and> Some k \<in> host_id ` set ?xs}"
  proof
    show "snd ` set t \<subseteq> {entry_for k ?xs | k. counted k \<and> Some k \<in> host_id ` set ?xs}"
    proof
      fix e assume "e \<in> snd ` set t"
      then obtain p where p: "p \<in> set t" "e = snd p" by auto
      then have "fst p \<in> set (map fst t)" by simp
      with ks have "counted (fst p) \<and> Some (fst p) \<in> host_id ` set ?xs" by blast
      with p tally_of_entry [OF inv p(1)]
      show "e \<in> {entry_for k ?xs | k. counted k \<and> Some k \<in> host_id ` set ?xs}" by auto
    qed
    show "{entry_for k ?xs | k. counted k \<and> Some k \<in> host_id ` set ?xs} \<subseteq> snd ` set t"
    proof
      fix e assume "e \<in> {entry_for k ?xs | k. counted k \<and> Some k \<in> host_id ` set ?xs}"
      then obtain k where k: "e = entry_for k ?xs" "counted k" "Some k \<in> host_id ` set ?xs"
        by blast
      with ks have "k \<in> set (map fst t)" by blast
      then obtain p where p: "p \<in> set t" "fst p = k" by auto
      with tally_of_entry [OF inv p(1)] k(1) have "e = snd p" by simp
      with p(1) show "e \<in> snd ` set t" by blast
    qed
  qed
  have ids: "entry_host_id ` set ?rk = set (map fst t)"
  proof -
    have "entry_host_id ` snd ` set t = fst ` set t"
    proof (rule image_cong [of _ _ "entry_host_id \<circ> snd" fst, simplified image_comp [symmetric], OF refl])
      fix p assume "p \<in> set t"
      then show "(entry_host_id \<circ> snd) p = fst p"
        using tally_of_entry [OF inv] by (simp add: entry_for_id)
    qed
    with st show ?thesis by simp
  qed
  have "card (set (map entry_host_id ?rk)) = length (map entry_host_id ?rk)"
    using ids distinct_card [OF d]
    by (simp add: length_Array_sort length_Object_values)
  then have "distinct (map entry_host_id ?rk)" by (rule card_distinct)
  with rk st img show ?thesis by simp
qed

text \<open>
  Claim C4, as the code has it. The ranking is in descending order of the number of
  listings. Two entries with the same number are in the order of \<^verbatim>\<open>Object.values\<close>: hosts
  whose identifier is an array index first, by ascending number, then the other hosts in
  the order in which they were first met. When no host identifier of the array is an
  array index, equal entries are in first-met order.
\<close>

theorem ranking_sorted_by_count_then_key_order:
  "\<exists>rk. computeHostRanking h = Inr rk
     \<and> sorted_wrt (\<lambda>e f. listingsCount f \<le> listingsCount e) rk
     \<and> sorted_wrt (ranked_before (values_before (current h))) rk
     \<and> ((\<forall>k. Some k \<in> host_id ` set (current h) \<longrightarrow> \<not> is_array_index k) \<longrightarrow>
          sorted_wrt (ranked_before (\<lambda>a b. first_pos a (current h) < first_pos b (current h))) rk)"
proof -
  let ?xs = "current h"
  let ?c = "\<lambda>a b. int (listingsCount b) - int (listingsCount a)"
  from ranking_of_tally [of h] obtain t where inv: "tally_of ?xs t"
    and rk: "computeHostRanking h = Inr (Array_sort ?c (Object_values t))"
    by blast
  let ?rk = "Array_sort ?c (Object_values t)"
  have s1: "sorted_wrt (ranked_before (values_before ?xs)) ?rk"
    using Object_values_order [OF inv] by (rule Array_sort_ranked)
  then have s0: "sorted_wrt (\<lambda>e f. listingsCount f \<le> listingsCount e) ?rk"
    by (rule sorted_wrt_mono_rel [rotated]) (rule ranked_before_count)
  have s2: "sorted_wrt (ranked_before (\<lambda>a b. first_pos a ?xs < first_pos b ?xs)) ?rk"
    if no: "\<forall>k. Some k \<in> host_id ` set ?xs \<longrightarrow> \<not> is_array_index k"
    using s1
  proof (rule sorted_wrt_mono_rel [rotated])
    fix e f
    assume e: "e \<in> set ?rk" and f: "f \<in> set ?rk"
      and b: "ranked_before (values_before ?xs) e f"
    have seen: "Some (entry_host_id g) \<in> host_id ` set ?xs" if "g \<in> set ?rk" for g
    proof -
      from that obtain p where p: "p \<in> set t" "g = snd p"
        by (auto simp: set_Array_sort set_Object_values)
      then have "fst p \<in> set (map fst t)" by simp
      with inv have "Some (fst p) \<in> host_id ` set ?xs" by (simp add: tally_of_def)
      with p tally_of_entry [OF inv p(1)] show ?thesis by (simp add: entry_for_id)
    qed
    from seen [OF e] seen [OF f] no
    have "\<not> is_array_index (entry_host_id e)" "\<not> is_array_index (entry_host_id f)" by blast+
    with b show "ranked_before (\<lambda>a b. first_pos a ?xs < first_pos b ?xs) e f"
      by (simp add: ranked_before_def values_before_def)
  qed
  from rk s0 s1 s2 show ?thesis by blast
qed

lemma is_array_index_examples:
  "\<not> is_array_index ''A''" "\<not> is_array_index ''B''" "\<not> is_array_index ''C''" "\<not> is_array_index []"
  "is_array_index ''3''" "is_array_index ''5''"
  by (simp_all add: is_array_index_def is_digit_def array_index_val_def digit_val_def)

theorem ranking_sorted_by_count_then_key_order_witness:
  "computeHostRanking (createDataHandler
      [row 80 1 90 ''A'', row 90 2 80 ''A'', row 70 1 85 ''B'', row 60 3 70 ''A'',
       row 50 1 60 [], row 40 1 95 ''C''])
     = Inr [\<lparr>entry_host_id = ''A'', entry_host_name = ''A'', listingsCount = 3\<rparr>,
            \<lparr>entry_host_id = ''B'', entry_host_name = ''B'', listingsCount = 1\<rparr>,
            \<lparr>entry_host_id = ''C'', entry_host_name = ''C'', listingsCount = 1\<rparr>]"
  using ranking_sorted_by_count_then_key_order [of "createDataHandler
      [row 80 1 90 ''A'', row 90 2 80 ''A'', row 70 1 85 ''B'', row 60 3 70 ''A'',
       row 50 1 60 [], row 40 1 95 ''C'']"]
  by (simp add: computeHostRanking_def createDataHandler_def current_def row_def tally_step_def
        js_get_def Object_prototype_keys_def Object_values_def Array_sort_def
        is_array_index_examples)

text \<open>
  Claim C4 as stated fails: the hosts 4869 and 2787, met in this order with one listing
  each, are ranked 2787 before 4869.
\<close>

theorem ranking_ties_not_in_first_seen_order:
  "computeHostRanking (createDataHandler [row 80 1 90 ''4869'', row 90 2 80 ''2787''])
     = Inr [\<lparr>entry_host_id = ''2787'', entry_host_name = ''2787'', listingsCount = 1\<rparr>,
            \<lparr>entry_host_id = ''4869'', entry_host_name = ''4869'', listingsCount = 1\<rparr>]
   \<and> first_pos ''4869'' (current (createDataHandler [row 80 1 90 ''4869'', row 90 2 80 ''2787''])) = 0
   \<and> first_pos ''2787'' (current (createDataHandler [row 80 1 90 ''4869'', row 90 2 80 ''2787''])) = 1
   \<and> \<not> sorted_wrt
         (ranked_before (\<lambda>a b.
            first_pos a (current (createDataHandler [row 80 1 90 ''4869'', row 90 2 80 ''2787'']))
            < first_pos b (current (createDataHandler [row 80 1 90 ''4869'', row 90 2 80 ''2787'']))))
         [\<lparr>entry_host_id = ''2787'', entry_host_name = ''2787'', listingsCount = 1\<rparr>,
          \<lparr>entry_host_id = ''4869'', entry_host_name = ''4869'', listingsCount = 1\<rparr>]"
  by (simp add: computeHostRanking_def createDataHandler_def current_def row_def tally_step_def
        js_get_def Object_prototype_keys_def Object_values_def Array_sort_def
        is_array_index_def is_digit_def first_pos_def array_index_val_def digit_val_def
        ranked_before_def)

text \<open>
  Claim C8 at a host whose identifier is \<^verbatim>\<open>constructor\<close>: the tally inherits a truthy
  value under that name, no entry is created, and the ranking has no entry for the
  host.
\<close>

theorem ranking_drops_host_named_constructor:
  "computeHostRanking (createDataHandler [row 80 1 90 ''constructor'']) = Inr []
   \<and> computeHostRanking (createDataHandler [row 80 1 90 ''constructor'', row 70 1 90 ''host'', row 70 2 80 ''constructor''])
       = Inr [\<lparr>entry_host_id = ''host'', entry_host_name = ''host'', listingsCount = 1\<rparr>]"
  by (simp add: computeHostRanking_def createDataHandler_def current_def row_def tally_step_def
        js_get_def Object_prototype_keys_def Object_values_def Array_sort_def
        is_array_index_def is_digit_def)

section \<open>Totality\<close>

lemma computeStats_returns: "\<exists>s. computeStats h = Inr s"
proof (cases "current h = []")
  case True
  then show ?thesis by (simp add: computeStats_empty)
next
  case False
  from computeStats_nonempty [OF this] show ?thesis by blast
qed

lemma computeHostRanking_returns: "\<exists>rk. computeHostRanking h = Inr rk"
  using ranking_of_tally [of h] by blast

lemma computeBestValue_returns: "\<exists>b. computeBestValue h = Inr b"
  using bestValue_loop_result [of "current h" None "Num 0"] by (auto simp: computeBestValue_def)

text \<open>
  Claim C9. On a handler reached by any chain of calls, the three computing methods
  return a value and no failure (no property of \<^verbatim>\<open>undefined\<close> is read, nothing is divided
  by zero), and the filters and \<^verbatim>\<open>reset\<close> leave a handler whose references are valid. For
  the empty current array the results are the zero statistics, the empty ranking, no
  best value and the empty array.
\<close>

theorem core_operations_total:
  assumes "h = chain cs (createDataHandler ld)"
  shows "(\<exists>s. computeStats h = Inr s)
     \<and> (\<exists>rk. computeHostRanking h = Inr rk)
     \<and> (\<exists>b. computeBestValue h = Inr b)
     \<and> handler_ok h
     \<and> handler_ok (filterByPrice lo hi h)
     \<and> handler_ok (filterByBedrooms lo hi h)
     \<and> handler_ok (filterByReviewScore lo hi h)
     \<and> handler_ok (reset h)
     \<and> (current h = [] \<longrightarrow>
           computeStats h = Inr \<lparr>totalListings = 0, avgPrice = Num 0, avgPriceByBedrooms = []\<rparr>
           \<and> computeHostRanking h = Inr []
           \<and> computeBestValue h = Inr None
           \<and> current (filterByPrice lo hi h) = []
           \<and> current (filterByBedrooms lo hi h) = []
           \<and> current (filterByReviewScore lo hi h) = [])"
proof -
  have ok: "handler_ok h"
    using assms chain_invariant [of cs ld] by simp
  have "handler_ok (invoke (FilterByPrice lo hi) h)"
    "handler_ok (invoke (FilterByBedrooms lo hi) h)"
    "handler_ok (invoke (FilterByReviewScore lo hi) h)"
    "handler_ok (invoke Reset h)"
    using ok by (rule handler_ok_invoke)+
  then have oks: "handler_ok (filterByPrice lo hi h)" "handler_ok (filterByBedrooms lo hi h)"
    "handler_ok (filterByReviewScore lo hi h)" "handler_ok (reset h)"
    by simp_all
  have empty: "computeStats h = Inr \<lparr>totalListings = 0, avgPrice = Num 0, avgPriceByBedrooms = []\<rparr>
           \<and> computeHostRanking h = Inr []
           \<and> computeBestValue h = Inr None
           \<and> current (filterByPrice lo hi h) = []
           \<and> current (filterByBedrooms lo hi h) = []
           \<and> current (filterByReviewScore lo hi h) = []" if "current h = []"
    using that
    by (simp add: computeStats_empty computeHostRanking_def computeBestValue_def
          Object_values_def Array_sort_def current_filterByPrice current_filterByBedrooms
          current_filterByReviewScore)
  from ok oks empty computeStats_returns [of h] computeHostRanking_returns [of h]
    computeBestValue_returns [of h]
  show ?thesis by blast
qed

theorem core_operations_total_witness:
  "current (chain [FilterByPrice 100 200] (createDataHandler [row 50 1 90 ''7''])) = []
   \<and> computeStats (chain [FilterByPrice 100 200] (createDataHandler [row 50 1 90 ''7'']))
       = Inr \<lparr>totalListings = 0, avgPrice = Num 0, avgPriceByBedrooms = []\<rparr>
   \<and> computeHostRanking (chain [FilterByPrice 100 200] (createDataHandler [row 50 1 90 ''7''])) = Inr []
   \<and> computeBestValue (chain [FilterByPrice 100 200] (createDataHandler [row 50 1 90 ''7''])) = Inr None
   \<and> handler_ok (reset (chain [FilterByPrice 100 200] (createDataHandler [row 50 1 90 ''7''])))"
proof -
  let ?h = "chain [FilterByPrice 100 200] (createDataHandler [row 50 1 90 ''7''])"
  have e: "current ?h = []"
    by (simp add: chain_def current_filterByPrice)
       (simp add: createDataHandler_def current_def row_def)
  from core_operations_total [of ?h "[FilterByPrice 100 200]" "[row 50 1 90 ''7'']" 0 1, OF refl] e
  show ?thesis by simp
qed

section \<open>The export\<close>

text \<open>
  Claim C10. \<^verbatim>\<open>exportResults\<close> hands the second argument to the serialiser exactly when it
  is truthy; for every falsy argument (omitted, \<^verbatim>\<open>null\<close>, zero, the empty string,
  \<^verbatim>\<open>false\<close>, NaN) it hands the current array.
\<close>

theorem export_falls_back_to_current_on_falsy:
  "exportResults filename v h
     = (filename, if truthy v then Passed v else CurrentData (current h))
   \<and> (\<not> truthy v \<longrightarrow> snd (exportResults filename v h) = CurrentData (current h))
   \<and> (snd (exportResults filename v h) = Passed v \<longleftrightarrow> truthy v)
   \<and> (\<forall>w \<in> set [JUndefined, JNull, JNumber (Num 0), JString [], JBool False, JNumber NaN].
         \<not> truthy w \<and> snd (exportResults filename w h) = CurrentData (current h)
         \<and> snd (exportResults filename w h) \<noteq> Passed w)"
  by (cases v) (auto simp: exportResults_def)

theorem export_falls_back_to_current_on_falsy_witness:
  "truthy (JNumber (Num 0)) = False
   \<and> exportResults ''out.json'' (JNumber (Num 0)) (createDataHandler [row 50 1 90 ''7''])
       = (''out.json'', CurrentData [row 50 1 90 ''7''])
   \<and> exportResults ''out.json'' JUndefined (createDataHandler [row 50 1 90 ''7''])
       = (''out.json'', CurrentData [row 50 1 90 ''7''])
   \<and> exportResults ''out.json'' (JString ''stats'') (createDataHandler [row 50 1 90 ''7''])
       = (''out.json'', Passed (JString ''stats''))"
  using export_falls_back_to_current_on_falsy
          [of "''out.json''" "JNumber (Num 0)" "createDataHandler [row 50 1 90 ''7'']"]
        export_falls_back_to_current_on_falsy
          [of "''out.json''" "JUndefined" "createDataHandler [row 50 1 90 ''7'']"]
        export_falls_back_to_current_on_falsy
          [of "''out.json''" "JString ''stats''" "createDataHandler [row 50 1 90 ''7'']"]
  by (simp add: createDataHandler_def current_def)

end
